theory Spec2Isabelle
  imports Main "HOL-Library.Word" "HOL-Library.Multiset"
begin

unbundle bit_operations_syntax

section \<open>Buffers\<close>

text \<open>
  A Node.js \<open>Buffer\<close> is a sequence of unsigned bytes. \<open>Buffer.slice(start, end)\<close>
  with \<open>0 \<le> start \<le> end\<close> clamps both ends to the length of the buffer.
\<close>

type_synonym byte = "8 word"
type_synonym Buffer = "byte list"

definition buf_slice :: "Buffer \<Rightarrow> nat \<Rightarrow> nat \<Rightarrow> Buffer" where
  "buf_slice buf start end = take (end - start) (drop start buf)"

text \<open>
  \<open>Buffer.allocUnsafe(n)\<close> returns \<open>n\<close> bytes of unspecified content; the content is the
  parameter \<open>junk\<close>, a byte for every position.
\<close>

definition allocUnsafe :: "(nat \<Rightarrow> byte) \<Rightarrow> nat \<Rightarrow> Buffer" where
  "allocUnsafe junk n = map junk [0..<n]"

text \<open>
  \<open>source.copy(target, targetStart)\<close> overwrites the target from \<open>targetStart\<close> on with as
  many bytes of the source as fit; the target keeps its length, and nothing is copied when
  \<open>targetStart\<close> is at or past its end.
\<close>

definition buffer_copy :: "Buffer \<Rightarrow> Buffer \<Rightarrow> nat \<Rightarrow> Buffer" where
  "buffer_copy source target targetStart =
     take (length target)
       (take targetStart target @ source @ drop (targetStart + length source) target)"

section \<open>Chunk manager (src/storage/chunk.ts)\<close>

record StorageLocation =
  loc_nodeId :: string
  loc_type :: string
  loc_storageType :: string
  loc_protocol :: string
  loc_endpoint :: string
  loc_region :: string
  loc_availability :: int
  loc_lastSeen :: int
  loc_health :: int
  loc_capacity :: int
  loc_used :: int
  loc_latency :: int
  loc_bandwidth :: int

record ChunkInfo =
  ci_index :: int
  ci_size :: int
  ci_checksum :: string
  ci_location :: StorageLocation
  ci_replicas :: int

datatype chunk_error =
    Error string
  | StorageError (se_message: string) (se_code: string) (se_chunkIndex: int)

text \<open>
  The descriptor pushed by one iteration of the loop of \<open>split\<close>. \<open>now\<close> is the value of
  \<open>Date.now()\<close> read in that iteration.
\<close>

definition new_chunk_info :: "nat \<Rightarrow> nat \<Rightarrow> string \<Rightarrow> int \<Rightarrow> ChunkInfo" where
  "new_chunk_info index sz checksum now =
     \<lparr> ci_index = int index,
       ci_size = int sz,
       ci_checksum = checksum,
       ci_location =
         \<lparr> loc_nodeId = '''', loc_type = ''source'', loc_storageType = ''local'',
           loc_protocol = ''file'', loc_endpoint = '''', loc_region = '''',
           loc_availability = 1, loc_lastSeen = now, loc_health = 1, loc_capacity = 0,
           loc_used = 0, loc_latency = 0, loc_bandwidth = 0 \<rparr>,
       ci_replicas = 0 \<rparr>"

text \<open>
  The loop of \<open>split\<close>. \<open>calculateChecksum\<close> (SHA-256 of the Node.js crypto library,
  rendered in hex) is the parameter \<open>H\<close>; \<open>clock i\<close> is what \<open>Date.now()\<close> returns in
  iteration \<open>i\<close>. The local variable \<open>chunk\<close> of each iteration is kept beside the
  descriptor that is pushed, so that the chunks themselves can be spoken about;
  \<open>split\<close> returns the descriptors only, as the source does. With \<open>chunkSize = 0\<close> the
  offset never advances and the loop does not return: the result is \<open>None\<close>.
\<close>

partial_function (option) split_loop ::
  "(Buffer \<Rightarrow> string) \<Rightarrow> (nat \<Rightarrow> int) \<Rightarrow> Buffer \<Rightarrow> nat \<Rightarrow> nat \<Rightarrow> nat \<Rightarrow>
   (Buffer \<times> ChunkInfo) list \<Rightarrow> (Buffer \<times> ChunkInfo) list option" where
  "split_loop H clock data chunkSize index offset chunks =
     (if offset < length data then
        split_loop H clock data chunkSize (index + 1)
          (offset + min chunkSize (length data - offset))
          (chunks @
            [(buf_slice data offset (offset + min chunkSize (length data - offset)),
              new_chunk_info index (min chunkSize (length data - offset))
                (H (buf_slice data offset (offset + min chunkSize (length data - offset))))
                (clock index))])
      else Some chunks)"

definition split_chunks ::
  "(Buffer \<Rightarrow> string) \<Rightarrow> (nat \<Rightarrow> int) \<Rightarrow> Buffer \<Rightarrow> nat \<Rightarrow> (Buffer \<times> ChunkInfo) list option" where
  "split_chunks H clock data chunkSize = split_loop H clock data chunkSize 0 0 []"

definition split ::
  "(Buffer \<Rightarrow> string) \<Rightarrow> (nat \<Rightarrow> int) \<Rightarrow> Buffer \<Rightarrow> nat \<Rightarrow> ChunkInfo list option" where
  "split H clock data chunkSize = map_option (map snd) (split_chunks H clock data chunkSize)"

definition validate :: "(Buffer \<Rightarrow> string) \<Rightarrow> Buffer \<Rightarrow> ChunkInfo \<Rightarrow> bool" where
  "validate H chunk info =
     (if int (length chunk) \<noteq> ci_size info then False else H chunk = ci_checksum info)"

text \<open>The copying loop of \<open>combine\<close>.\<close>

fun copy_loop :: "Buffer list \<Rightarrow> Buffer \<Rightarrow> nat \<Rightarrow> Buffer" where
  "copy_loop [] result offset = result"
| "copy_loop (d # ds) result offset =
     copy_loop ds (buffer_copy d result offset) (offset + length d)"

text \<open>
  \<open>combine\<close>. \<open>Array.prototype.sort\<close> is stable, and so is \<open>sort_key\<close>; the comparator
  \<open>a.info.index - b.info.index\<close> orders by index. The validation loop throws at the first
  pair, in sorted order, that does not validate.
\<close>

definition combine ::
  "(Buffer \<Rightarrow> string) \<Rightarrow> (nat \<Rightarrow> byte) \<Rightarrow> Buffer list \<Rightarrow> ChunkInfo list \<Rightarrow> chunk_error + Buffer" where
  "combine H junk chunks info =
     (if length chunks \<noteq> length info then Inl (Error ''Chunks and chunk info length mismatch'')
      else
        let sortedPairs = sort_key (\<lambda>p. ci_index (fst p)) (zip info chunks) in
        case find (\<lambda>p. \<not> validate H (snd p) (fst p)) sortedPairs of
          Some p \<Rightarrow>
            Inl (StorageError ''Chunk validation failed'' ''CHUNK_VALIDATION_ERROR''
                   (ci_index (fst p)))
        | None \<Rightarrow>
            let totalSize = sum_list (map (\<lambda>p. ci_size (fst p)) sortedPairs);
                result = allocUnsafe junk (nat totalSize)
            in Inr (copy_loop (map snd sortedPairs) result 0))"

subsection \<open>Closed form of the result of split\<close>

text \<open>
  The number of chunks, \<open>\<lceil>N / C\<rceil>\<close>, and the pair of chunk and descriptor that iteration
  \<open>i\<close> of the loop produces. Both are used to state and prove what the loop computes.
\<close>

definition nchunks :: "nat \<Rightarrow> nat \<Rightarrow> nat" where
  "nchunks N C = (N + C - 1) div C"

definition chunk_at ::
  "(Buffer \<Rightarrow> string) \<Rightarrow> (nat \<Rightarrow> int) \<Rightarrow> Buffer \<Rightarrow> nat \<Rightarrow> nat \<Rightarrow> Buffer \<times> ChunkInfo" where
  "chunk_at H clock data C i =
     (buf_slice data (i * C) (min ((i + 1) * C) (length data)),
      new_chunk_info i (min ((i + 1) * C) (length data) - i * C)
        (H (buf_slice data (i * C) (min ((i + 1) * C) (length data)))) (clock i))"

text \<open>
  An integrity failure of a chunk paired with its descriptor: the length differs from the
  size of the descriptor, or the digest differs from its checksum.
\<close>

definition chunk_bad :: "(Buffer \<Rightarrow> string) \<Rightarrow> Buffer \<times> ChunkInfo \<Rightarrow> bool" where
  "chunk_bad H p \<longleftrightarrow> int (length (fst p)) \<noteq> ci_size (snd p) \<or> H (fst p) \<noteq> ci_checksum (snd p)"

text \<open>A small digest function for evaluating the functions on concrete buffers.\<close>

definition sample_digest :: "Buffer \<Rightarrow> string" where
  "sample_digest b = map (\<lambda>w. if even (unat w) then CHR ''0'' else CHR ''1'') b"

section \<open>DHT protocol (src/dht/protocol.ts)\<close>

text \<open>
  \<open>Buffer.from(s, "hex")\<close> decodes two characters at a time, accepts digits and letters
  of either case, and stops at the first pair that is not hexadecimal; a trailing single
  character is dropped.
\<close>

definition unhex :: "char \<Rightarrow> nat option" where
  "unhex c =
     (let n = (of_char c :: nat) in
      if 48 \<le> n \<and> n \<le> 57 then Some (n - 48)
      else if 97 \<le> n \<and> n \<le> 102 then Some (n - 87)
      else if 65 \<le> n \<and> n \<le> 70 then Some (n - 55)
      else None)"

fun hex_decode :: "string \<Rightarrow> Buffer" where
  "hex_decode (a # b # rest) =
     (case unhex a of
        None \<Rightarrow> []
      | Some x \<Rightarrow>
          (case unhex b of
             None \<Rightarrow> []
           | Some y \<Rightarrow> of_nat (16 * x + y) # hex_decode rest))"
| "hex_decode [a] = []"
| "hex_decode [] = []"

definition KEY_SIZE :: nat where
  "KEY_SIZE = 32"

text \<open>
  Reading a buffer past its end gives \<open>undefined\<close>, which \<open>^\<close> takes as 0.
\<close>

definition buffer_get :: "Buffer \<Rightarrow> nat \<Rightarrow> byte" where
  "buffer_get buf i = (if i < length buf then buf ! i else 0)"

definition distance :: "string \<Rightarrow> string \<Rightarrow> Buffer" where
  "distance keyA keyB =
     map (\<lambda>i. buffer_get (hex_decode keyA) i XOR buffer_get (hex_decode keyB) i)
       [0..<KEY_SIZE]"

record DHTPayload =
  pl_id :: string
  pl_timestamp :: int
  pl_sender :: "string option"
  pl_receiver :: "string option"
  pl_key :: "string option"
  pl_value :: "string option"
  pl_data :: "string option"

record DHTMessage =
  msg_type :: string
  msg_dhtType :: "string option"
  msg_protocol :: "string option"
  msg_version :: "string option"
  msg_payload :: DHTPayload

text \<open>
  A string field is falsy when it is missing (\<open>None\<close>) or the empty string.
\<close>

fun truthy :: "string option \<Rightarrow> bool" where
  "truthy None = False"
| "truthy (Some s) = (s \<noteq> [])"

text \<open>The regular expression \<open>/^[0-9a-f]{64}$/\<close>.\<close>

definition is_lower_hex :: "char \<Rightarrow> bool" where
  "is_lower_hex c =
     (let n = (of_char c :: nat) in (48 \<le> n \<and> n \<le> 57) \<or> (97 \<le> n \<and> n \<le> 102))"

definition key_regex_test :: "string \<Rightarrow> bool" where
  "key_regex_test s = (length s = 64 \<and> list_all is_lower_hex s)"

definition MAX_TIME_DIFF :: int where
  "MAX_TIME_DIFF = 5 * 60 * 1000"

text \<open>
  \<open>validateMessage\<close>; \<open>now\<close> is the value of \<open>Date.now()\<close>. The guard
  \<open>message.payload.key && !regex.test(key)\<close> holds for a key that is present, not the
  empty string, and does not match.
\<close>

definition validateMessage :: "int \<Rightarrow> DHTMessage \<Rightarrow> bool" where
  "validateMessage now message =
     (if \<not> truthy (msg_dhtType message) \<or> \<not> truthy (pl_sender (msg_payload message)) \<or>
         \<not> truthy (msg_protocol message) \<or> \<not> truthy (msg_version message)
      then False
      else if (case pl_key (msg_payload message) of
                 None \<Rightarrow> False
               | Some k \<Rightarrow> k \<noteq> [] \<and> \<not> key_regex_test k)
      then False
      else if \<bar>now - pl_timestamp (msg_payload message)\<bar> > MAX_TIME_DIFF
      then False
      else True)"

section \<open>Routing table (src/dht/kbucket.ts)\<close>

record PeerMetadata =
  pm_type :: string
  pm_region :: string
  pm_version :: string
  pm_capabilities :: "string list"
  pm_uptime :: int
  pm_lastSeen :: int

record PeerMetrics =
  mt_latency :: int
  mt_bandwidth :: int
  mt_reliability :: int
  mt_storage_total :: int
  mt_storage_used :: int
  mt_storage_available :: int

record PeerInfo =
  peer_id :: string
  peer_multiaddr :: "string list"
  peer_protocols :: "string list"
  peer_metadata :: PeerMetadata
  peer_metrics :: PeerMetrics

record Bucket =
  peers :: "PeerInfo list"
  lastUpdated :: int

record KBucket =
  nodeId :: string
  kSize :: int
  numberOfBuckets :: nat
  buckets :: "Bucket list"

text \<open>
  The constructor; \<open>clock i\<close> is the value of \<open>Date.now()\<close> read for bucket \<open>i\<close>.
\<close>

definition new_KBucket :: "string \<Rightarrow> int \<Rightarrow> nat \<Rightarrow> (nat \<Rightarrow> int) \<Rightarrow> KBucket" where
  "new_KBucket nid k n clock =
     \<lparr> nodeId = nid, kSize = k, numberOfBuckets = n,
       buckets = map (\<lambda>i. \<lparr> peers = [], lastUpdated = clock i \<rparr>) [0..<n] \<rparr>"

text \<open>
  The inner loop of \<open>getBucketIndex\<close>: the first \<open>j\<close> in \<open>0..7\<close> with
  \<open>(byte & (1 << (7 - j))) !== 0\<close>.
\<close>

definition first_set_bit :: "byte \<Rightarrow> nat option" where
  "first_set_bit d = find (\<lambda>j. d AND push_bit (7 - j) 1 \<noteq> 0) [0..<8]"

text \<open>The outer loop, from byte \<open>i\<close> on.\<close>

fun scan_distance :: "Buffer \<Rightarrow> nat \<Rightarrow> nat option" where
  "scan_distance [] i = None"
| "scan_distance (d # ds) i =
     (if d \<noteq> 0 then
        (case first_set_bit d of
           Some j \<Rightarrow> Some (i * 8 + j)
         | None \<Rightarrow> scan_distance ds (i + 1))
      else scan_distance ds (i + 1))"

definition getBucketIndex :: "string \<Rightarrow> nat \<Rightarrow> string \<Rightarrow> int" where
  "getBucketIndex self nBuckets peerId =
     (case scan_distance (distance self peerId) 0 of
        Some r \<Rightarrow> int r
      | None \<Rightarrow> int nBuckets - 1)"

text \<open>\<open>Array.prototype.findIndex\<close>, with \<open>None\<close> for \<open>-1\<close>.\<close>

fun findIndex :: "('a \<Rightarrow> bool) \<Rightarrow> 'a list \<Rightarrow> nat option" where
  "findIndex P [] = None"
| "findIndex P (x # xs) =
     (if P x then Some 0 else map_option Suc (findIndex P xs))"

definition STALE_THRESHOLD :: int where
  "STALE_THRESHOLD = 1 * 60 * 60 * 1000"

definition findStalePeer :: "int \<Rightarrow> Bucket \<Rightarrow> nat option" where
  "findStalePeer now bucket =
     findIndex (\<lambda>peer. now - pm_lastSeen (peer_metadata peer) > STALE_THRESHOLD)
       (peers bucket)"

text \<open>
  The values of \<open>Date.now()\<close> that one call of \<open>addPeer\<close> may read: in
  \<open>findStalePeer\<close>, for the \<open>lastSeen\<close> of the stored record, and for
  \<open>lastUpdated\<close>.
\<close>

record Clock =
  now_stale :: int
  now_seen :: int
  now_updated :: int

text \<open>The record \<open>{...peer, metadata: {...peer.metadata, lastSeen: Date.now()}}\<close>.\<close>

definition seen_at :: "int \<Rightarrow> PeerInfo \<Rightarrow> PeerInfo" where
  "seen_at now peer = peer\<lparr> peer_metadata := (peer_metadata peer)\<lparr> pm_lastSeen := now \<rparr> \<rparr>"

definition addPeerToBucket :: "int \<Rightarrow> Clock \<Rightarrow> Bucket \<Rightarrow> PeerInfo \<Rightarrow> Bucket" where
  "addPeerToBucket k clk bucket peer =
     (if int (length (peers bucket)) < k then
        bucket\<lparr> peers := peers bucket @ [seen_at (now_seen clk) peer] \<rparr>
      else
        (case findStalePeer (now_stale clk) bucket of
           Some staleIndex \<Rightarrow>
             bucket\<lparr> peers := (peers bucket)[staleIndex := seen_at (now_seen clk) peer] \<rparr>
         | None \<Rightarrow> bucket))"

text \<open>
  Reading \<open>this.buckets[bucketIndex]\<close> outside the array gives \<open>undefined\<close>, and the
  access to its \<open>peers\<close> throws a \<open>TypeError\<close>.
\<close>

datatype kbucket_error = TypeError

definition bucket_at :: "KBucket \<Rightarrow> int \<Rightarrow> Bucket option" where
  "bucket_at t i = (if 0 \<le> i \<and> nat i < length (buckets t) then Some (buckets t ! nat i) else None)"

definition addPeer :: "Clock \<Rightarrow> PeerInfo \<Rightarrow> KBucket \<Rightarrow> kbucket_error + KBucket" where
  "addPeer clk peer t =
     (let bucketIndex = getBucketIndex (nodeId t) (numberOfBuckets t) (peer_id peer) in
      case bucket_at t bucketIndex of
        None \<Rightarrow> Inl TypeError
      | Some bucket \<Rightarrow>
          let bucket' =
            (case findIndex (\<lambda>p. peer_id p = peer_id peer) (peers bucket) of
               Some existingPeerIndex \<Rightarrow>
                 bucket\<lparr> peers := (peers bucket)[existingPeerIndex := seen_at (now_seen clk) peer] \<rparr>
             | None \<Rightarrow> addPeerToBucket (kSize t) clk bucket peer)
          in Inr (t\<lparr> buckets := (buckets t)
                     [nat bucketIndex := bucket'\<lparr> lastUpdated := now_updated clk \<rparr>] \<rparr>))"

text \<open>\<open>removePeer\<close>; \<open>splice(peerIndex, 1)\<close> removes the element at that index.\<close>

definition removePeer :: "int \<Rightarrow> string \<Rightarrow> KBucket \<Rightarrow> kbucket_error + KBucket" where
  "removePeer now peerId t =
     (let bucketIndex = getBucketIndex (nodeId t) (numberOfBuckets t) peerId in
      case bucket_at t bucketIndex of
        None \<Rightarrow> Inl TypeError
      | Some bucket \<Rightarrow>
          (case findIndex (\<lambda>p. peer_id p = peerId) (peers bucket) of
             Some peerIndex \<Rightarrow>
               Inr (t\<lparr> buckets := (buckets t)
                     [nat bucketIndex :=
                        bucket\<lparr> peers := take peerIndex (peers bucket) @
                                          drop (peerIndex + 1) (peers bucket),
                                lastUpdated := now \<rparr>] \<rparr>)
           | None \<Rightarrow> Inr t))"

text \<open>A sequence of calls; it stops at the first one that throws.\<close>

datatype routing_op = AddPeer Clock PeerInfo | RemovePeer int string

fun apply_op :: "routing_op \<Rightarrow> KBucket \<Rightarrow> kbucket_error + KBucket" where
  "apply_op (AddPeer clk peer) t = addPeer clk peer t"
| "apply_op (RemovePeer now peerId) t = removePeer now peerId t"

fun run_ops :: "routing_op list \<Rightarrow> KBucket \<Rightarrow> kbucket_error + KBucket" where
  "run_ops [] t = Inr t"
| "run_ops (x # xs) t =
     (case apply_op x t of Inl e \<Rightarrow> Inl e | Inr t' \<Rightarrow> run_ops xs t')"

subsection \<open>Identifiers as numbers\<close>

text \<open>
  A 256-bit id on the wire: 64 lowercase hexadecimal characters. The number a buffer
  denotes, big-endian. The index of the most-significant set bit of a number, counted so
  that bit 0 is the least significant: distance 1 (the closest pair) has index 0, and the
  distances from \<open>2 ^ 255\<close> on (the farthest pairs) have index 255.
\<close>

definition is_key :: "string \<Rightarrow> bool" where
  "is_key s = (length s = 64 \<and> list_all is_lower_hex s)"

definition key_value :: "Buffer \<Rightarrow> nat" where
  "key_value buf = foldl (\<lambda>acc b. acc * 256 + unat b) 0 buf"

fun bit_length :: "nat \<Rightarrow> nat" where
  "bit_length n = (if n = 0 then 0 else Suc (bit_length (n div 2)))"

definition msb_index :: "nat \<Rightarrow> nat" where
  "msb_index n = bit_length n - 1"

text \<open>The number of zero bits before the first set bit of a buffer.\<close>

fun leading_zeros :: "Buffer \<Rightarrow> nat" where
  "leading_zeros [] = 0"
| "leading_zeros (d # ds) =
     (if d = 0 then 8 + leading_zeros ds else 8 - bit_length (unat d))"

subsection \<open>Concrete identifiers and peers for evaluation\<close>

definition key_zero :: string where
  "key_zero = ''0000000000000000000000000000000000000000000000000000000000000000''"

definition key_one :: string where
  "key_one = ''0000000000000000000000000000000000000000000000000000000000000001''"

definition key_three :: string where
  "key_three = ''0000000000000000000000000000000000000000000000000000000000000003''"

definition key_top :: string where
  "key_top = ''8000000000000000000000000000000000000000000000000000000000000000''"

definition sample_peer :: "string \<Rightarrow> int \<Rightarrow> PeerInfo" where
  "sample_peer pid seen =
     \<lparr> peer_id = pid, peer_multiaddr = [], peer_protocols = [],
       peer_metadata = \<lparr> pm_type = ''unknown'', pm_region = '''', pm_version = '''',
         pm_capabilities = [], pm_uptime = 0, pm_lastSeen = seen \<rparr>,
       peer_metrics = \<lparr> mt_latency = 0, mt_bandwidth = 0, mt_reliability = 0,
         mt_storage_total = 0, mt_storage_used = 0, mt_storage_available = 0 \<rparr> \<rparr>"

definition tick :: "int \<Rightarrow> Clock" where
  "tick now = \<lparr> now_stale = now, now_seen = now, now_updated = now \<rparr>"

subsection \<open>Notions used to state the properties of the routing table\<close>

text \<open>
  \<open>first_index P xs i\<close>: \<open>i\<close> is the first position of \<open>xs\<close> whose element satisfies
  \<open>P\<close>. A peer is stale at time \<open>now\<close> when it was last seen more than one hour before.
\<close>

definition first_index :: "('a \<Rightarrow> bool) \<Rightarrow> 'a list \<Rightarrow> nat \<Rightarrow> bool" where
  "first_index P xs i = (i < length xs \<and> P (xs ! i) \<and> list_all (\<lambda>x. \<not> P x) (take i xs))"

definition is_stale :: "int \<Rightarrow> PeerInfo \<Rightarrow> bool" where
  "is_stale now peer = (now - pm_lastSeen (peer_metadata peer) > 60 * 60 * 1000)"

definition has_id :: "string \<Rightarrow> PeerInfo \<Rightarrow> bool" where
  "has_id pid peer = (peer_id peer = pid)"

text \<open>
  What \<open>addPeer\<close> stores in the bucket of the peer, case by case: \<open>xs\<close> are the peers of
  the bucket before the call and \<open>ps\<close> the peers after it.
\<close>

definition new_peers :: "int \<Rightarrow> Clock \<Rightarrow> PeerInfo \<Rightarrow> PeerInfo list \<Rightarrow> PeerInfo list \<Rightarrow> bool" where
  "new_peers k clk p xs ps =
     (if \<exists>q\<in>set xs. has_id (peer_id p) q
      then \<exists>i. first_index (has_id (peer_id p)) xs i \<and> ps = xs[i := seen_at (now_seen clk) p]
      else if int (length xs) < k then ps = xs @ [seen_at (now_seen clk) p]
      else if \<exists>q\<in>set xs. is_stale (now_stale clk) q
      then \<exists>j. first_index (is_stale (now_stale clk)) xs j \<and>
               ps = xs[j := seen_at (now_seen clk) p]
      else ps = xs)"

text \<open>The ids of all peers of the table, bucket after bucket (\<open>getAllPeers\<close>).\<close>

definition all_peer_ids :: "KBucket \<Rightarrow> string list" where
  "all_peer_ids t = concat (map (\<lambda>b. map peer_id (peers b)) (buckets t))"

text \<open>The ids that a sequence of calls passes to \<open>addPeer\<close>.\<close>

fun added_ids :: "routing_op list \<Rightarrow> string list" where
  "added_ids [] = []"
| "added_ids (AddPeer clk peer # xs) = peer_id peer # added_ids xs"
| "added_ids (RemovePeer now peerId # xs) = added_ids xs"

text \<open>
  The invariant of the table: every bucket holds distinct ids, at most \<open>kSize\<close> peers, and
  only peers whose bucket index is the position of the bucket.
\<close>

definition bucket_ok :: "KBucket \<Rightarrow> nat \<Rightarrow> bool" where
  "bucket_ok t i =
     (distinct (map peer_id (peers (buckets t ! i))) \<and>
      int (length (peers (buckets t ! i))) \<le> max 0 (kSize t) \<and>
      list_all (\<lambda>q. getBucketIndex (nodeId t) (numberOfBuckets t) (peer_id q) = int i)
        (peers (buckets t ! i)))"

definition table_inv :: "KBucket \<Rightarrow> bool" where
  "table_inv t =
     (length (buckets t) = numberOfBuckets t \<and> 256 \<le> numberOfBuckets t \<and>
      list_all (bucket_ok t) [0..<length (buckets t)])"

definition key_two :: string where
  "key_two = ''0000000000000000000000000000000000000000000000000000000000000002''"

text \<open>A message with everything in place but the key and the timestamp.\<close>

definition sample_message :: "string option \<Rightarrow> int \<Rightarrow> DHTMessage" where
  "sample_message k ts =
     \<lparr> msg_type = ''query'', msg_dhtType = Some ''FIND_NODE'', msg_protocol = Some ''dht'',
       msg_version = Some ''1.0.0'',
       msg_payload = \<lparr> pl_id = ''m1'', pl_timestamp = ts, pl_sender = Some key_one,
         pl_receiver = None, pl_key = k, pl_value = None, pl_data = None \<rparr> \<rparr>"

section \<open>Storage manager (src/storage/manager.ts)\<close>

text \<open>
  The data of \<open>src/storage/types.ts\<close> that the manager reads. The optional encryption
  and compression descriptions of the metadata, which the manager never looks at, are
  left out.
\<close>

record StorageOptions =
  so_encryption :: "(bool \<times> string option) option"
  so_compression :: "(bool \<times> string option \<times> int option) option"
  so_chunks :: "(int \<times> int) option"
  so_replicas :: "int option"
  so_persist :: "bool option"

record StorageMetadata =
  md_id :: string
  md_size :: int
  md_chunks :: "ChunkInfo list"
  md_created :: int
  md_modified :: int
  md_checksum :: string
  md_storageType :: string
  md_replicas :: int

datatype StorageStrategy = LocalOnly | NetworkOnly | P2POnly | Hybrid

record StorageRequest =
  rq_data :: Buffer
  rq_options :: "StorageOptions option"
  rq_strategy :: "StorageStrategy option"
  rq_priority :: "int option"

text \<open>
  What is thrown: an error with a message (from a provider, or the manager's
  \<open>Checksum validation failed\<close>), or a \<open>StorageError\<close> with its message, its code and the
  error it wraps as details, if any.
\<close>

datatype manager_error =
    Thrown string
  | StorageFailure (sf_message: string) (sf_code: string) (sf_details: "manager_error option")

text \<open>
  A storage provider, as the manager sees it: the name of its class, and the methods the
  manager calls. A provider acts on the world outside the manager (disk, network),
  which is the state \<open>'w\<close>; a method returns what it resolves to, or the error it rejects
  with, and the world after the call.
\<close>

record 'w StorageProvider =
  sp_className :: string
  sp_store :: "Buffer \<Rightarrow> StorageOptions option \<Rightarrow> 'w \<Rightarrow> (manager_error + StorageMetadata) \<times> 'w"
  sp_retrieve :: "string \<Rightarrow> 'w \<Rightarrow> (manager_error + Buffer) \<times> 'w"
  sp_getMetadata :: "string \<Rightarrow> 'w \<Rightarrow> (manager_error + StorageMetadata option) \<times> 'w"
  sp_validateChecksum :: "string \<Rightarrow> 'w \<Rightarrow> (manager_error + bool) \<times> 'w"

text \<open>
  The events the manager emits, in the order of emission. An event that carries a
  provider names it by its key in the map \<open>providers\<close>.
\<close>

datatype event =
    Stored string int nat StorageStrategy
  | Retrieved string int string
  | Replicated string string
  | ReplicationFailed string string manager_error

text \<open>
  The manager: its configuration, the map \<open>providers\<close> in insertion order, the metadata
  cache, the events emitted so far, and the world its providers act on.
\<close>

record 'w StorageManager =
  cfg_defaultStrategy :: "StorageStrategy option"
  cfg_replicationFactor :: "int option"
  providers :: "(string \<times> 'w StorageProvider) list"
  metadataCache :: "string \<Rightarrow> StorageMetadata option"
  emitted :: "event list"
  world :: "'w"

definition emit :: "event \<Rightarrow> 'w StorageManager \<Rightarrow> 'w StorageManager" where
  "emit e m = m\<lparr> emitted := emitted m @ [e] \<rparr>"

definition provider_entry :: "'w StorageManager \<Rightarrow> string \<Rightarrow> (string \<times> 'w StorageProvider) list" where
  "provider_entry m name =
     (case map_of (providers m) name of Some p \<Rightarrow> [(name, p)] | None \<Rightarrow> [])"

fun getProvidersForStrategy ::
  "'w StorageManager \<Rightarrow> StorageStrategy \<Rightarrow> (string \<times> 'w StorageProvider) list" where
  "getProvidersForStrategy m LocalOnly = provider_entry m ''local''"
| "getProvidersForStrategy m NetworkOnly = provider_entry m ''network''"
| "getProvidersForStrategy m P2POnly = provider_entry m ''p2p''"
| "getProvidersForStrategy m Hybrid = providers m"

text \<open>\<open>String.prototype.toLowerCase\<close> on the letters A to Z.\<close>

definition to_lower_char :: "char \<Rightarrow> char" where
  "to_lower_char c =
     (if 65 \<le> (of_char c :: nat) \<and> (of_char c :: nat) \<le> 90
      then char_of ((of_char c :: nat) + 32) else c)"

definition toLowerCase :: "string \<Rightarrow> string" where
  "toLowerCase s = map to_lower_char s"

definition getProvidersForMetadata ::
  "'w StorageManager \<Rightarrow> StorageMetadata \<Rightarrow> (string \<times> 'w StorageProvider) list" where
  "getProvidersForMetadata m metadata =
     filter (\<lambda>entry.
        list_ex (\<lambda>chunk. loc_storageType (ci_location chunk) = toLowerCase (sp_className (snd entry)))
          (md_chunks metadata))
       (providers m)"

text \<open>
  \<open>findMetadata\<close>: the first provider, in order, whose \<open>getMetadata\<close> resolves to a
  metadata object; a provider that throws or resolves to nothing is passed over.
\<close>

fun findMetadata ::
  "(string \<times> 'w StorageProvider) list \<Rightarrow> string \<Rightarrow> 'w \<Rightarrow> StorageMetadata option \<times> 'w" where
  "findMetadata [] ident w = (None, w)"
| "findMetadata (entry # rest) ident w =
     (case sp_getMetadata (snd entry) ident w of
        (Inr (Some metadata), w') \<Rightarrow> (Some metadata, w')
      | (Inr None, w') \<Rightarrow> findMetadata rest ident w'
      | (Inl e, w') \<Rightarrow> findMetadata rest ident w')"

text \<open>
  The loop of \<open>retrieve\<close> over the providers of the metadata. \<open>lastError\<close> is what the
  last provider tried threw.
\<close>

fun retrieve_loop ::
  "(string \<times> 'w StorageProvider) list \<Rightarrow> string \<Rightarrow> StorageMetadata \<Rightarrow> manager_error option \<Rightarrow>
   'w StorageManager \<Rightarrow> (manager_error + Buffer) \<times> 'w StorageManager" where
  "retrieve_loop [] ident metadata lastError m =
     (Inl (StorageFailure ''Failed to retrieve data from any provider'' ''RETRIEVE_ERROR''
             lastError), m)"
| "retrieve_loop (entry # rest) ident metadata lastError m =
     (case sp_retrieve (snd entry) ident (world m) of
        (Inl e, w1) \<Rightarrow> retrieve_loop rest ident metadata (Some e) (m\<lparr> world := w1 \<rparr>)
      | (Inr data, w1) \<Rightarrow>
          (case sp_validateChecksum (snd entry) ident w1 of
             (Inl e, w2) \<Rightarrow> retrieve_loop rest ident metadata (Some e) (m\<lparr> world := w2 \<rparr>)
           | (Inr False, w2) \<Rightarrow>
               retrieve_loop rest ident metadata (Some (Thrown ''Checksum validation failed''))
                 (m\<lparr> world := w2 \<rparr>)
           | (Inr True, w2) \<Rightarrow>
               (Inr data, emit (Retrieved ident (md_size metadata) (fst entry))
                            (m\<lparr> world := w2 \<rparr>))))"

text \<open>
  The first part of \<open>retrieve\<close>: the metadata from the cache or, when the cache does not
  have it, from \<open>findMetadata\<close>, which then fills the cache.
\<close>

definition lookupMetadata ::
  "string \<Rightarrow> 'w StorageManager \<Rightarrow> StorageMetadata option \<times> 'w StorageManager" where
  "lookupMetadata ident m =
     (case metadataCache m ident of
        Some metadata \<Rightarrow> (Some metadata, m)
      | None \<Rightarrow>
          (case findMetadata (providers m) ident (world m) of
             (Some metadata, w') \<Rightarrow>
               (Some metadata,
                m\<lparr> world := w', metadataCache := (metadataCache m)(ident \<mapsto> metadata) \<rparr>)
           | (None, w') \<Rightarrow> (None, m\<lparr> world := w' \<rparr>)))"

text \<open>
  The attempt on \<open>options.preferredProvider\<close>: \<open>Some\<close> result when the provider exists and
  its \<open>retrieve\<close> resolves, which \<open>retrieve\<close> then returns as it is.
\<close>

definition tryPreferred ::
  "string option \<Rightarrow> string \<Rightarrow> 'w StorageManager \<Rightarrow> Buffer option \<times> 'w StorageManager" where
  "tryPreferred preferredProvider ident m =
     (case preferredProvider of
        None \<Rightarrow> (None, m)
      | Some name \<Rightarrow>
          if name = [] then (None, m)
          else
            (case map_of (providers m) name of
               None \<Rightarrow> (None, m)
             | Some preferred \<Rightarrow>
                 (case sp_retrieve preferred ident (world m) of
                    (Inr data, w') \<Rightarrow> (Some data, m\<lparr> world := w' \<rparr>)
                  | (Inl e, w') \<Rightarrow> (None, m\<lparr> world := w' \<rparr>))))"

definition retrieve ::
  "string \<Rightarrow> string option \<Rightarrow> 'w StorageManager \<Rightarrow> (manager_error + Buffer) \<times> 'w StorageManager" where
  "retrieve ident preferredProvider m =
     (case lookupMetadata ident m of
        (None, m1) \<Rightarrow> (Inl (StorageFailure ''Data not found'' ''NOT_FOUND'' None), m1)
      | (Some metadata, m1) \<Rightarrow>
          if getProvidersForMetadata m1 metadata = [] then
            (Inl (StorageFailure ''No providers available for retrieval'' ''NO_PROVIDERS'' None),
             m1)
          else
            (case tryPreferred preferredProvider ident m1 of
               (Some data, m2) \<Rightarrow> (Inr data, m2)
             | (None, m2) \<Rightarrow>
                 retrieve_loop (getProvidersForMetadata m1 metadata) ident metadata None m2))"

text \<open>The options \<open>{...options, replicas: 1}\<close> of the store on a secondary provider.\<close>

definition no_options :: StorageOptions where
  "no_options = \<lparr> so_encryption = None, so_compression = None, so_chunks = None,
                  so_replicas = None, so_persist = None \<rparr>"

definition single_replica :: "StorageOptions option \<Rightarrow> StorageOptions option" where
  "single_replica options =
     Some ((case options of None \<Rightarrow> no_options | Some opts \<Rightarrow> opts)\<lparr> so_replicas := Some 1 \<rparr>)"

text \<open>\<open>Array.prototype.slice(0, end)\<close>: a negative end counts from the end of the array.\<close>

definition slice_to :: "'a list \<Rightarrow> int \<Rightarrow> 'a list" where
  "slice_to xs e = (if e < 0 then take (nat (int (length xs) + e)) xs else take (nat e) xs)"

definition replicationFactor :: "'w StorageManager \<Rightarrow> StorageOptions option \<Rightarrow> int" where
  "replicationFactor m options =
     (case (case options of None \<Rightarrow> None | Some opts \<Rightarrow> so_replicas opts) of
        Some r \<Rightarrow> r
      | None \<Rightarrow> (case cfg_replicationFactor m of Some r \<Rightarrow> r | None \<Rightarrow> 1))"

subsection \<open>Replication: the asynchronous calls of \<open>replicateToProvider\<close>\<close>

text \<open>
  \<open>handleReplication\<close> calls \<open>replicateToProvider\<close> for every provider of the slice, one
  call right after the other, and then awaits \<open>Promise.allSettled\<close> of the promises. Each
  call is an asynchronous task: it runs up to its first \<open>await\<close> when it is called and is
  resumed later, one step at a time, and the steps of the tasks interleave in an order
  that the code does not fix.

  A task awaits calls of provider methods only (those of \<open>retrieve(metadata.id)\<close>, which
  it runs first, and then the store on its own provider). Such a call acts on the world
  at some moment after it was made, and the task that awaits it is resumed at some later
  moment; both moments are steps of their own, so that the calls and the resumptions of
  different tasks can come in any order. The state of a task says what it awaits:

   \<^item> \<open>AwaitGetMetadata p rest\<close>: in \<open>findMetadata\<close>, \<open>p.getMetadata(id)\<close> is called and has
     not acted yet, \<open>rest\<close> are the providers behind \<open>p\<close>; \<open>GotMetadata rest r\<close>: the call
     has settled with \<open>r\<close> and the task is to be resumed;
   \<^item> \<open>AwaitRetrieve metadata p rest\<close> and \<open>GotData metadata p rest r\<close>: the same for
     \<open>p.retrieve(id)\<close> in the loop of \<open>retrieve\<close>;
   \<^item> \<open>AwaitValidate metadata p rest data\<close> and \<open>GotValid metadata p rest data r\<close>: the same
     for \<open>p.validateChecksum(id)\<close>;
   \<^item> \<open>AwaitStore data\<close>: \<open>provider.store(data, {...options, replicas: 1})\<close> is called and
     has not acted yet; \<open>StoreDone\<close>: it has resolved;
   \<^item> \<open>Caught e\<close>: what the task awaited in its \<open>try\<close> block (\<open>retrieve\<close> or the store) has
     rejected with \<open>e\<close>, and the \<open>catch\<close> block is to run;
   \<^item> \<open>Settled\<close>: the task has returned.
\<close>

datatype 'w task_state =
    AwaitGetMetadata "string \<times> 'w StorageProvider" "(string \<times> 'w StorageProvider) list"
  | GotMetadata "(string \<times> 'w StorageProvider) list" "manager_error + StorageMetadata option"
  | AwaitRetrieve StorageMetadata "string \<times> 'w StorageProvider"
      "(string \<times> 'w StorageProvider) list"
  | GotData StorageMetadata "string \<times> 'w StorageProvider"
      "(string \<times> 'w StorageProvider) list" "manager_error + Buffer"
  | AwaitValidate StorageMetadata "string \<times> 'w StorageProvider"
      "(string \<times> 'w StorageProvider) list" Buffer
  | GotValid StorageMetadata "string \<times> 'w StorageProvider"
      "(string \<times> 'w StorageProvider) list" Buffer "manager_error + bool"
  | AwaitStore Buffer
  | StoreDone
  | Caught manager_error
  | Settled

record 'w task =
  task_provider :: "string \<times> 'w StorageProvider"
  task_state :: "'w task_state"

text \<open>
  The loop of \<open>findMetadata\<close> at the providers \<open>ps\<close> still to ask: the next
  \<open>getMetadata\<close> is called, or the loop is over, \<open>findMetadata\<close> returns \<open>null\<close> and
  \<open>retrieve\<close> throws.
\<close>

definition find_metadata :: "(string \<times> 'w StorageProvider) list \<Rightarrow> 'w task_state" where
  "find_metadata ps =
     (case ps of
        [] \<Rightarrow> Caught (StorageFailure ''Data not found'' ''NOT_FOUND'' None)
      | p # rest \<Rightarrow> AwaitGetMetadata p rest)"

text \<open>
  The loop of \<open>retrieve\<close> at the providers \<open>ps\<close> still to try: the next \<open>retrieve\<close> is
  called, or the loop is over and \<open>retrieve\<close> throws with the last error as details.
\<close>

definition try_providers ::
  "StorageMetadata \<Rightarrow> (string \<times> 'w StorageProvider) list \<Rightarrow> manager_error option \<Rightarrow>
   'w task_state" where
  "try_providers metadata ps lastError =
     (case ps of
        [] \<Rightarrow> Caught (StorageFailure ''Failed to retrieve data from any provider''
                        ''RETRIEVE_ERROR'' lastError)
      | p # rest \<Rightarrow> AwaitRetrieve metadata p rest)"

text \<open>\<open>retrieve\<close> from the point where it has the metadata.\<close>

definition with_metadata :: "'w StorageManager \<Rightarrow> StorageMetadata \<Rightarrow> 'w task_state" where
  "with_metadata m metadata =
     (if getProvidersForMetadata m metadata = [] then
        Caught (StorageFailure ''No providers available for retrieval'' ''NO_PROVIDERS'' None)
      else try_providers metadata (getProvidersForMetadata m metadata) None)"

text \<open>
  The call \<open>replicateToProvider(metadata, provider, options)\<close>: the task it starts, run
  up to its first \<open>await\<close>. That is the beginning of \<open>retrieve(metadata.id)\<close>, which looks
  into the cache. \<open>retrieve\<close> is called without options here, so its branch for a
  preferred provider is not taken.
\<close>

definition replicateToProvider ::
  "StorageMetadata \<Rightarrow> string \<times> 'w StorageProvider \<Rightarrow> 'w StorageManager \<Rightarrow> 'w task" where
  "replicateToProvider metadata provider m =
     \<lparr> task_provider = provider,
       task_state =
         (case metadataCache m (md_id metadata) of
            Some cached \<Rightarrow> with_metadata m cached
          | None \<Rightarrow> find_metadata (providers m)) \<rparr>"

text \<open>
  One step of a task of \<open>replicateToProvider(metadata, provider, options)\<close>. In an
  \<open>Await\<close> state the awaited call acts on the world and settles. In the other states the
  task is resumed and runs up to its next \<open>await\<close>: whatever \<open>retrieve\<close> or the store
  throws is caught and emitted as \<open>replication-failed\<close>.
\<close>

fun task_step ::
  "StorageMetadata \<Rightarrow> StorageOptions option \<Rightarrow> string \<times> 'w StorageProvider \<Rightarrow>
   'w task_state \<Rightarrow> 'w StorageManager \<Rightarrow> 'w task_state \<times> 'w StorageManager" where
  "task_step metadata options provider (AwaitGetMetadata p rest) m =
     (case sp_getMetadata (snd p) (md_id metadata) (world m) of
        (r, w) \<Rightarrow> (GotMetadata rest r, m\<lparr> world := w \<rparr>))"
| "task_step metadata options provider (GotMetadata rest r) m =
     (case r of
        Inr (Some found) \<Rightarrow>
          (with_metadata m found,
           m\<lparr> metadataCache := (metadataCache m)(md_id metadata \<mapsto> found) \<rparr>)
      | Inr None \<Rightarrow> (find_metadata rest, m)
      | Inl e \<Rightarrow> (find_metadata rest, m))"
| "task_step metadata options provider (AwaitRetrieve found p rest) m =
     (case sp_retrieve (snd p) (md_id metadata) (world m) of
        (r, w) \<Rightarrow> (GotData found p rest r, m\<lparr> world := w \<rparr>))"
| "task_step metadata options provider (GotData found p rest r) m =
     (case r of
        Inr data \<Rightarrow> (AwaitValidate found p rest data, m)
      | Inl e \<Rightarrow> (try_providers found rest (Some e), m))"
| "task_step metadata options provider (AwaitValidate found p rest data) m =
     (case sp_validateChecksum (snd p) (md_id metadata) (world m) of
        (r, w) \<Rightarrow> (GotValid found p rest data r, m\<lparr> world := w \<rparr>))"
| "task_step metadata options provider (GotValid found p rest data r) m =
     (case r of
        Inr True \<Rightarrow>
          (AwaitStore data, emit (Retrieved (md_id metadata) (md_size found) (fst p)) m)
      | Inr False \<Rightarrow>
          (try_providers found rest (Some (Thrown ''Checksum validation failed'')), m)
      | Inl e \<Rightarrow> (try_providers found rest (Some e), m))"
| "task_step metadata options provider (AwaitStore data) m =
     (case sp_store (snd provider) data (single_replica options) (world m) of
        (Inr stored, w) \<Rightarrow> (StoreDone, m\<lparr> world := w \<rparr>)
      | (Inl e, w) \<Rightarrow> (Caught e, m\<lparr> world := w \<rparr>))"
| "task_step metadata options provider StoreDone m =
     (Settled, emit (Replicated (md_id metadata) (fst provider)) m)"
| "task_step metadata options provider (Caught e) m =
     (Settled, emit (ReplicationFailed (md_id metadata) (fst provider) e) m)"
| "task_step metadata options provider Settled m = (Settled, m)"

text \<open>The step of the task number \<open>i\<close> among the tasks that run together.\<close>

definition step_task ::
  "StorageMetadata \<Rightarrow> StorageOptions option \<Rightarrow> nat \<Rightarrow>
   'w task list \<times> 'w StorageManager \<Rightarrow> 'w task list \<times> 'w StorageManager" where
  "step_task metadata options i cfg =
     (case cfg of
        (tasks, m) \<Rightarrow>
          if i < length tasks then
            (case task_step metadata options (task_provider (tasks ! i))
                    (task_state (tasks ! i)) m of
               (s, m') \<Rightarrow> (tasks[i := (tasks ! i)\<lparr> task_state := s \<rparr>], m'))
          else (tasks, m))"

text \<open>
  The tasks that \<open>handleReplication\<close> starts, in the order of the providers. Starting a
  task changes nothing: up to its first \<open>await\<close> a task only reads the cache.
\<close>

definition replication_tasks ::
  "StorageMetadata \<Rightarrow> (string \<times> 'w StorageProvider) list \<Rightarrow> StorageOptions option \<Rightarrow>
   'w StorageManager \<Rightarrow> 'w task list" where
  "replication_tasks metadata provs options m =
     map (\<lambda>provider. replicateToProvider metadata provider m)
       (slice_to provs (replicationFactor m options - 1))"

text \<open>
  A task takes at most two steps for each provider that \<open>findMetadata\<close> asks, four for
  each provider that \<open>retrieve\<close> tries, two for the store and one to emit its event.
  \<open>steps_left n s\<close> bounds the steps that a task in the state \<open>s\<close> still takes when the
  manager has \<open>n\<close> providers.
\<close>

fun steps_left :: "nat \<Rightarrow> 'w task_state \<Rightarrow> nat" where
  "steps_left n (AwaitGetMetadata p rest) = 2 * length rest + 4 * n + 5"
| "steps_left n (GotMetadata rest r) = 2 * length rest + 4 * n + 4"
| "steps_left n (AwaitRetrieve found p rest) = 4 * length rest + 6"
| "steps_left n (GotData found p rest r) = 4 * length rest + 5"
| "steps_left n (AwaitValidate found p rest data) = 4 * length rest + 4"
| "steps_left n (GotValid found p rest data r) = 4 * length rest + 3"
| "steps_left n (AwaitStore data) = 2"
| "steps_left n StoreDone = 1"
| "steps_left n (Caught e) = 1"
| "steps_left n Settled = 0"

text \<open>
  The steps of \<open>handleReplication\<close>. The schedule \<open>sched\<close> is the order in which the tasks
  take their steps, each number naming a task (a step of a task that has returned, or
  of no task, does nothing); \<open>Promise.allSettled\<close> resolves when every task has
  returned, so after the schedule each task that is still running is given the steps it
  needs, with \<open>6 * n + 4\<close> a bound for a manager of \<open>n\<close> providers. Every interleaving of
  the tasks is the run of some schedule.
\<close>

definition settle_all :: "nat \<Rightarrow> nat \<Rightarrow> nat list" where
  "settle_all k n = concat (map (replicate (6 * n + 4)) [0..<k])"

definition replication_steps ::
  "nat list \<Rightarrow> (string \<times> 'w StorageProvider) list \<Rightarrow> StorageOptions option \<Rightarrow>
   'w StorageManager \<Rightarrow> nat list" where
  "replication_steps sched provs options m =
     sched @ settle_all (length (slice_to provs (replicationFactor m options - 1)))
               (length (providers m))"

definition handleReplication ::
  "nat list \<Rightarrow> StorageMetadata \<Rightarrow> (string \<times> 'w StorageProvider) list \<Rightarrow>
   StorageOptions option \<Rightarrow> 'w StorageManager \<Rightarrow> 'w StorageManager" where
  "handleReplication sched metadata provs options m =
     snd (fold (step_task metadata options) (replication_steps sched provs options m)
            (replication_tasks metadata provs options m, m))"

subsection \<open>\<open>store\<close>\<close>

definition resolveStrategy :: "'w StorageManager \<Rightarrow> StorageRequest \<Rightarrow> StorageStrategy" where
  "resolveStrategy m request =
     (case rq_strategy request of
        Some s \<Rightarrow> s
      | None \<Rightarrow> (case cfg_defaultStrategy m of Some s \<Rightarrow> s | None \<Rightarrow> Hybrid))"

text \<open>The test \<open>request.options?.replicas !== 0\<close>.\<close>

definition replicas_not_zero :: "StorageOptions option \<Rightarrow> bool" where
  "replicas_not_zero options =
     (case options of None \<Rightarrow> True | Some opts \<Rightarrow> so_replicas opts \<noteq> Some 0)"

text \<open>
  \<open>store\<close>, with the schedule \<open>sched\<close> of the replications that it awaits.
\<close>

definition store ::
  "nat list \<Rightarrow> StorageRequest \<Rightarrow> 'w StorageManager \<Rightarrow>
   (manager_error + StorageMetadata) \<times> 'w StorageManager" where
  "store sched request m =
     (let strategy = resolveStrategy m request in
      case getProvidersForStrategy m strategy of
        [] \<Rightarrow>
          (Inl (StorageFailure ''No storage providers available for strategy'' ''NO_PROVIDERS''
                  None), m)
      | primary # others \<Rightarrow>
          (case sp_store (snd primary) (rq_data request) (rq_options request) (world m) of
             (Inl e, w1) \<Rightarrow>
               (Inl (StorageFailure ''Failed to store data'' ''STORE_ERROR'' (Some e)),
                m\<lparr> world := w1 \<rparr>)
           | (Inr primaryMetadata, w1) \<Rightarrow>
               let m1 = m\<lparr> world := w1,
                          metadataCache :=
                            (metadataCache m)(md_id primaryMetadata \<mapsto> primaryMetadata) \<rparr>;
                   m2 = (if length (primary # others) > 1 \<and> replicas_not_zero (rq_options request)
                         then handleReplication sched primaryMetadata others (rq_options request) m1
                         else m1)
               in (Inr primaryMetadata,
                   emit (Stored (md_id primaryMetadata) (md_size primaryMetadata)
                           (length (primary # others)) strategy) m2)))"

subsection \<open>Notions used to state the properties of the manager\<close>

text \<open>The events of replication, with the id and the provider that such an event names.\<close>

fun is_replication :: "event \<Rightarrow> bool" where
  "is_replication (Replicated ident name) = True"
| "is_replication (ReplicationFailed ident name e) = True"
| "is_replication other = False"

fun replication_of :: "event \<Rightarrow> (string \<times> string) option" where
  "replication_of (Replicated ident name) = Some (ident, name)"
| "replication_of (ReplicationFailed ident name e) = Some (ident, name)"
| "replication_of other = None"

text \<open>
  The secondary providers that \<open>store\<close> replicates to, and the manager as \<open>store\<close> leaves
  it to the replications: after the store on the primary provider, with its metadata in
  the cache.
\<close>

definition secondaries ::
  "'w StorageManager \<Rightarrow> StorageRequest \<Rightarrow> (string \<times> 'w StorageProvider) list \<Rightarrow>
   (string \<times> 'w StorageProvider) list" where
  "secondaries m request others =
     (if others \<noteq> [] \<and> replicas_not_zero (rq_options request)
      then slice_to others (replicationFactor m (rq_options request) - 1) else [])"

definition primary_stored :: "'w StorageManager \<Rightarrow> StorageMetadata \<Rightarrow> 'w \<Rightarrow> 'w StorageManager" where
  "primary_stored m metadata w =
     m\<lparr> world := w, metadataCache := (metadataCache m)(md_id metadata \<mapsto> metadata) \<rparr>"

text \<open>
  The tasks and the manager after the first \<open>k\<close> steps of \<open>handleReplication\<close>.
\<close>

definition replications_after ::
  "nat \<Rightarrow> nat list \<Rightarrow> StorageMetadata \<Rightarrow> (string \<times> 'w StorageProvider) list \<Rightarrow>
   StorageOptions option \<Rightarrow> 'w StorageManager \<Rightarrow> 'w task list \<times> 'w StorageManager" where
  "replications_after k sched metadata provs options m =
     fold (step_task metadata options) (take k (replication_steps sched provs options m))
       (replication_tasks metadata provs options m, m)"

text \<open>
  \<open>store_settles k \<dots> = Some (name, r)\<close>: the step number \<open>k\<close> of \<open>handleReplication\<close> is
  the store on the secondary provider \<open>name\<close>, and in the world of that moment the store
  settles with \<open>r\<close>, resolved or rejected. \<open>catch_runs k \<dots> = Some (name, e)\<close>: the step
  number \<open>k\<close> is the \<open>catch\<close> block of the replication to \<open>name\<close>, run with the error \<open>e\<close>.
\<close>

definition store_settles ::
  "nat \<Rightarrow> nat list \<Rightarrow> StorageMetadata \<Rightarrow> (string \<times> 'w StorageProvider) list \<Rightarrow>
   StorageOptions option \<Rightarrow> 'w StorageManager \<Rightarrow>
   (string \<times> (manager_error + StorageMetadata)) option" where
  "store_settles k sched metadata provs options m =
     (case replications_after k sched metadata provs options m of
        (tasks, mk) \<Rightarrow>
          let steps = replication_steps sched provs options m in
          if k < length steps \<and> steps ! k < length tasks then
            (case task_state (tasks ! (steps ! k)) of
               AwaitStore data \<Rightarrow>
                 Some (fst (task_provider (tasks ! (steps ! k))),
                       fst (sp_store (snd (task_provider (tasks ! (steps ! k)))) data
                              (single_replica options) (world mk)))
             | _ \<Rightarrow> None)
          else None)"

definition catch_runs ::
  "nat \<Rightarrow> nat list \<Rightarrow> StorageMetadata \<Rightarrow> (string \<times> 'w StorageProvider) list \<Rightarrow>
   StorageOptions option \<Rightarrow> 'w StorageManager \<Rightarrow> (string \<times> manager_error) option" where
  "catch_runs k sched metadata provs options m =
     (case replications_after k sched metadata provs options m of
        (tasks, mk) \<Rightarrow>
          let steps = replication_steps sched provs options m in
          if k < length steps \<and> steps ! k < length tasks then
            (case task_state (tasks ! (steps ! k)) of
               Caught e \<Rightarrow> Some (fst (task_provider (tasks ! (steps ! k))), e)
             | _ \<Rightarrow> None)
          else None)"

text \<open>The event that a task is about to emit, when its store or its \<open>try\<close> block is over.\<close>

definition committed :: "string \<Rightarrow> 'w task \<Rightarrow> event option" where
  "committed ident t =
     (case task_state t of
        StoreDone \<Rightarrow> Some (Replicated ident (fst (task_provider t)))
      | Caught e \<Rightarrow> Some (ReplicationFailed ident (fst (task_provider t)) e)
      | _ \<Rightarrow> None)"

text \<open>
  The body of \<open>replicateToProvider\<close> from the point where \<open>retrieve\<close> has returned or
  thrown, run in one piece: the store on the provider and the event, or the event of the
  failure. It is what a task that no other step comes across makes of \<open>retrieve\<close>.
\<close>

definition after_retrieve ::
  "StorageMetadata \<Rightarrow> StorageOptions option \<Rightarrow> string \<times> 'w StorageProvider \<Rightarrow>
   (manager_error + Buffer) \<times> 'w StorageManager \<Rightarrow> 'w StorageManager" where
  "after_retrieve metadata options provider res =
     (case res of
        (Inl e, m1) \<Rightarrow> emit (ReplicationFailed (md_id metadata) (fst provider) e) m1
      | (Inr data, m1) \<Rightarrow>
          (case sp_store (snd provider) data (single_replica options) (world m1) of
             (Inl e, w2) \<Rightarrow>
               emit (ReplicationFailed (md_id metadata) (fst provider) e) (m1\<lparr> world := w2 \<rparr>)
           | (Inr stored, w2) \<Rightarrow>
               emit (Replicated (md_id metadata) (fst provider)) (m1\<lparr> world := w2 \<rparr>)))"

text \<open>A task that has not returned owes one event of replication.\<close>

definition owed :: "string \<Rightarrow> 'w task list \<Rightarrow> (string \<times> string) multiset" where
  "owed ident tasks =
     image_mset (\<lambda>t. (ident, fst (task_provider t)))
       (filter_mset (\<lambda>t. task_state t \<noteq> Settled) (mset tasks))"




subsection \<open>Concrete providers and managers for evaluation\<close>

text \<open>
  Providers over a world that counts the calls made to providers. \<open>fixed_provider\<close>
  knows one id: it stores by answering with the given metadata, delivers the given bytes
  and validates them or not; \<open>broken_provider\<close> throws on every call; \<open>busy_provider\<close> is
  a \<open>fixed_provider\<close> whose store throws when the number of calls made so far is even.
\<close>

definition sample_metadata :: "string \<Rightarrow> string \<Rightarrow> StorageMetadata" where
  "sample_metadata ident storageType =
     \<lparr> md_id = ident, md_size = 3,
       md_chunks = [(new_chunk_info 0 3 ''abc'' 0)
                      \<lparr> ci_location := (ci_location (new_chunk_info 0 3 ''abc'' 0))
                           \<lparr> loc_storageType := storageType \<rparr> \<rparr>],
       md_created = 0, md_modified = 0, md_checksum = ''abc'', md_storageType = storageType,
       md_replicas = 1 \<rparr>"

definition fixed_provider :: "string \<Rightarrow> StorageMetadata \<Rightarrow> Buffer \<Rightarrow> bool \<Rightarrow> nat StorageProvider" where
  "fixed_provider cls metadata bytes valid =
     \<lparr> sp_className = cls,
       sp_store = (\<lambda>d opts w. (Inr metadata, Suc w)),
       sp_retrieve = (\<lambda>ident w. (if ident = md_id metadata then Inr bytes
                                   else Inl (Thrown ''no such file''), Suc w)),
       sp_getMetadata = (\<lambda>ident w. (Inr (if ident = md_id metadata then Some metadata else None),
                                     Suc w)),
       sp_validateChecksum = (\<lambda>ident w. (Inr valid, Suc w)) \<rparr>"

definition broken_provider :: "string \<Rightarrow> nat StorageProvider" where
  "broken_provider cls =
     \<lparr> sp_className = cls,
       sp_store = (\<lambda>d opts w. (Inl (Thrown ''store failed''), Suc w)),
       sp_retrieve = (\<lambda>ident w. (Inl (Thrown ''no such file''), Suc w)),
       sp_getMetadata = (\<lambda>ident w. (Inr None, Suc w)),
       sp_validateChecksum = (\<lambda>ident w. (Inl (Thrown ''no such file''), Suc w)) \<rparr>"

definition busy_provider :: "string \<Rightarrow> StorageMetadata \<Rightarrow> nat StorageProvider" where
  "busy_provider cls metadata =
     (fixed_provider cls metadata [] True)
       \<lparr> sp_store := (\<lambda>d opts w. (if odd w then Inr metadata else Inl (Thrown ''busy''), Suc w)) \<rparr>"

definition new_manager :: "(string \<times> nat StorageProvider) list \<Rightarrow> nat StorageManager" where
  "new_manager provs =
     \<lparr> cfg_defaultStrategy = None, cfg_replicationFactor = None, providers = provs,
       metadataCache = (\<lambda>ident. None), emitted = [], world = 0 \<rparr>"

definition sample_request :: "int option \<Rightarrow> StorageRequest" where
  "sample_request r =
     \<lparr> rq_data = [1, 2, 3],
       rq_options = Some (no_options\<lparr> so_replicas := r \<rparr>),
       rq_strategy = Some Hybrid, rq_priority = None \<rparr>"

section \<open>Chunk manager: properties\<close>

lemma less_nchunks_iff: "0 < C \<Longrightarrow> i < nchunks N C \<longleftrightarrow> i * C < N"
proof -
  assume C: "0 < C"
  have "i < nchunks N C \<longleftrightarrow> Suc i \<le> (N + C - 1) div C"
    by (simp add: nchunks_def Suc_le_eq)
  also have "\<dots> \<longleftrightarrow> Suc i * C \<le> N + C - 1"
    using C by (simp add: less_eq_div_iff_mult_less_eq)
  also have "\<dots> \<longleftrightarrow> i * C < N"
    using C by auto
  finally show ?thesis .
qed

lemma split_loop_closed:
  assumes C: "0 < C"
  shows "offset = min (index * C) (length data) \<Longrightarrow>
         split_loop H clock data C index offset chunks =
           Some (chunks @ map (chunk_at H clock data C) [index..<nchunks (length data) C])"
proof (induction "nchunks (length data) C - index" arbitrary: index offset chunks)
  case 0
  then have "\<not> index < nchunks (length data) C" by simp
  then have "\<not> index * C < length data" using C by (simp add: less_nchunks_iff)
  with 0 show ?case
    by (subst split_loop.simps) simp
next
  case (Suc n)
  then have lt: "index < nchunks (length data) C" by simp
  then have lt': "index * C < length data" using C by (simp add: less_nchunks_iff)
  have off: "offset = index * C" using Suc.prems lt' by simp
  let ?e = "min ((index + 1) * C) (length data)"
  have m: "min C (length data - index * C) = ?e - index * C"
    by (auto simp: min_def)
  have nxt: "index * C + min C (length data - index * C) = ?e"
    using lt' by (auto simp: min_def)
  have IH: "split_loop H clock data C (index + 1) ?e cs =
        Some (cs @ map (chunk_at H clock data C) [index + 1..<nchunks (length data) C])" for cs
    using Suc.hyps(1)[of "index + 1" ?e cs] Suc.hyps(2)
    by simp
  have "split_loop H clock data C index offset chunks =
        split_loop H clock data C (index + 1) ?e (chunks @ [chunk_at H clock data C index])"
    by (subst split_loop.simps) (simp only: off lt' if_True nxt, simp only: m chunk_at_def)
  also have "\<dots> = Some (chunks @ map (chunk_at H clock data C) [index..<nchunks (length data) C])"
    using lt by (simp only: IH) (simp add: upt_conv_Cons)
  finally show ?case .
qed

lemma split_chunks_closed:
  "0 < C \<Longrightarrow> split_chunks H clock data C =
     Some (map (chunk_at H clock data C) [0..<nchunks (length data) C])"
  unfolding split_chunks_def by (simp add: split_loop_closed)

lemma buf_slice_chunk:
  "buf_slice data (i * C) (min ((i + 1) * C) (length data)) = take C (drop (i * C) data)"
  unfolding buf_slice_def
  by (rule nth_equalityI) (auto simp: min_def)

lemma fst_chunk_at: "fst (chunk_at H clock data C i) = take C (drop (i * C) data)"
  by (simp only: chunk_at_def fst_conv buf_slice_chunk)

lemma concat_chunks_take:
  "concat (map (\<lambda>i. take C (drop (i * C) data)) [0..<k]) = take (k * C) data"
proof (induction k)
  case 0
  show ?case by simp
next
  case (Suc k)
  have "take (k * C + C) data = take (k * C) data @ take C (drop (k * C) data)"
    by (rule take_add)
  with Suc show ?case by (simp add: add.commute)
qed

lemma nchunks_covers: "0 < C \<Longrightarrow> N \<le> nchunks N C * C"
proof -
  assume C: "0 < C"
  show ?thesis using less_nchunks_iff[OF C, of "nchunks N C" N] by simp
qed

lemma concat_split_chunks:
  assumes "0 < C"
  shows "concat (map fst (map (chunk_at H clock data C) [0..<nchunks (length data) C])) = data"
proof -
  have eq: "map fst (map (chunk_at H clock data C) [0..<nchunks (length data) C]) =
        map (\<lambda>i. take C (drop (i * C) data)) [0..<nchunks (length data) C]"
    by (simp add: fst_chunk_at)
  show ?thesis
    unfolding eq concat_chunks_take
    using nchunks_covers[OF assms, of "length data"] by simp
qed

lemma buffer_copy_fits:
  "offset + length d \<le> length result \<Longrightarrow>
   buffer_copy d result offset = take offset result @ d @ drop (offset + length d) result"
  by (simp add: buffer_copy_def)

lemma copy_loop_concat:
  "length result = offset + length (concat ds) \<Longrightarrow>
   copy_loop ds result offset = take offset result @ concat ds"
proof (induction ds arbitrary: result offset)
  case Nil
  then show ?case by simp
next
  case (Cons d ds)
  have fits: "offset + length d \<le> length result" using Cons.prems by simp
  let ?r = "buffer_copy d result offset"
  have r: "?r = take offset result @ d @ drop (offset + length d) result"
    by (rule buffer_copy_fits[OF fits])
  have len: "length ?r = (offset + length d) + length (concat ds)"
    using Cons.prems by (simp add: r)
  have "copy_loop (d # ds) result offset = take (offset + length d) ?r @ concat ds"
    using Cons.IH[OF len] by simp
  also have "take (offset + length d) ?r = take offset result @ d"
    using fits by (simp add: r)
  finally show ?case by simp
qed

lemma length_allocUnsafe: "length (allocUnsafe junk n) = n"
  by (simp add: allocUnsafe_def)

lemma validate_iff: "validate H c i \<longleftrightarrow> \<not> chunk_bad H (c, i)"
  by (simp add: validate_def chunk_bad_def)

lemma sort_key_map_swap:
  "sort_key f (map prod.swap ps) = map prod.swap (sort_key (\<lambda>p. f (prod.swap p)) ps)"
proof (induction ps)
  case Nil
  show ?case by simp
next
  case (Cons p ps)
  have ins: "insort_key f (prod.swap p) (map prod.swap xs) =
             map prod.swap (insort_key (\<lambda>p. f (prod.swap p)) p xs)" for xs
    by (induction xs) auto
  show ?case by (simp add: Cons ins)
qed

lemma zip_snd_fst: "zip (map snd ps) (map fst ps) = map prod.swap ps"
  by (induction ps) auto

lemma sum_sizes_valid:
  "\<forall>p\<in>set ps. \<not> chunk_bad H p \<Longrightarrow>
   sum_list (map (\<lambda>p. ci_size (snd p)) ps) = int (length (concat (map fst ps)))"
  by (induction ps) (auto simp: chunk_bad_def)

lemma combine_pairs:
  "combine H junk (map fst ps) (map snd ps) =
     (case find (chunk_bad H) (sort_key (\<lambda>p. ci_index (snd p)) ps) of
        Some p \<Rightarrow> Inl (StorageError ''Chunk validation failed'' ''CHUNK_VALIDATION_ERROR''
                      (ci_index (snd p)))
      | None \<Rightarrow> Inr (concat (map fst (sort_key (\<lambda>p. ci_index (snd p)) ps))))"
proof -
  let ?s = "sort_key (\<lambda>p. ci_index (snd p)) ps"
  have sorted: "sort_key (\<lambda>p. ci_index (fst p)) (zip (map snd ps) (map fst ps)) = map prod.swap ?s"
    by (simp add: zip_snd_fst sort_key_map_swap)
  have fnd: "find (\<lambda>p. \<not> validate H (snd p) (fst p)) (map prod.swap xs) =
             map_option prod.swap (find (chunk_bad H) xs)" for xs
    by (induction xs) (auto simp: validate_iff)
  show ?thesis
  proof (cases "find (chunk_bad H) ?s")
    case (Some p)
    then show ?thesis
      by (simp add: combine_def sorted fnd)
  next
    case None
    then have ok: "\<forall>p\<in>set ?s. \<not> chunk_bad H p"
      by (auto simp: find_None_iff)
    have total: "sum_list (map (\<lambda>p. ci_size (snd p)) ?s) =
                 int (length (concat (map fst ?s)))"
      by (rule sum_sizes_valid[OF ok])
    have "copy_loop (map fst ?s) (allocUnsafe junk (length (concat (map fst ?s)))) 0 =
          concat (map fst ?s)"
      by (subst copy_loop_concat) (simp_all add: length_allocUnsafe)
    with None show ?thesis
      by (simp add: combine_def sorted fnd total comp_def)
  qed
qed

lemma sum_list_insort_key:
  "sum_list (map f (insort_key g x xs)) = f x + sum_list (map (f :: 'a \<Rightarrow> int) xs)"
  by (induction xs) auto

lemma sum_list_sort_key:
  "sum_list (map f (sort_key g xs)) = sum_list (map (f :: 'a \<Rightarrow> int) xs)"
  by (induction xs) (auto simp: sum_list_insort_key)

lemma chunk_at_good: "i * C < length data \<Longrightarrow> \<not> chunk_bad H (chunk_at H clock data C i)"
  by (auto simp: chunk_bad_def chunk_at_def new_chunk_info_def buf_slice_def min_def)

lemma chunk_at_index: "ci_index (snd (chunk_at H clock data C i)) = int i"
  by (simp add: chunk_at_def new_chunk_info_def)

lemma sorted_chunk_indices:
  "sorted (map (\<lambda>p. ci_index (snd p)) (map (chunk_at H clock data C) [m..<n]))"
proof -
  have eq: "map (\<lambda>p. ci_index (snd p)) (map (chunk_at H clock data C) [m..<n]) = map int [m..<n]"
    by (simp add: chunk_at_index)
  show ?thesis
    unfolding eq by (rule sorted_map[THEN iffD2]) (simp add: sorted_wrt_iff_nth_less)
qed

text \<open>
  C1. For every buffer \<open>x\<close> and every chunk size \<open>C\<close> with \<open>1 \<le> C \<le> |x|\<close>, \<open>split\<close>
  returns, and combining the chunks it cut with the descriptors it returned gives back
  exactly \<open>x\<close>.
\<close>

theorem combine_split_roundtrip:
  assumes "1 \<le> C" and "C \<le> length x"
  shows "\<exists>ps. split_chunks H clock x C = Some ps \<and>
              split H clock x C = Some (map snd ps) \<and>
              combine H junk (map fst ps) (map snd ps) = Inr x"
proof -
  have C: "0 < C" using assms(1) by simp
  let ?ps = "map (chunk_at H clock x C) [0..<nchunks (length x) C]"
  have sp: "split_chunks H clock x C = Some ?ps"
    by (rule split_chunks_closed[OF C])
  have srt: "sort_key (\<lambda>p. ci_index (snd p)) ?ps = ?ps"
    by (rule sort_key_id_if_sorted) (rule sorted_chunk_indices)
  have "\<forall>p\<in>set ?ps. \<not> chunk_bad H p"
    using C by (auto simp: less_nchunks_iff chunk_at_good)
  then have fnd: "find (chunk_bad H) ?ps = None"
    by (auto simp: find_None_iff)
  have "combine H junk (map fst ?ps) (map snd ?ps) = Inr (concat (map fst ?ps))"
    by (simp only: combine_pairs srt fnd option.case)
  also have "concat (map fst ?ps) = x"
    by (rule concat_split_chunks[OF C])
  finally have "combine H junk (map fst ?ps) (map snd ?ps) = Inr x" .
  with sp show ?thesis by (simp add: split_def)
qed

theorem combine_split_roundtrip_witness:
  "(1::nat) \<le> 2 \<and> 2 \<le> length [1, 2, 3, 4, 5 :: byte] \<and>
   (\<exists>ps. split_chunks sample_digest (\<lambda>i. 0) [1, 2, 3, 4, 5] 2 = Some ps \<and>
         split sample_digest (\<lambda>i. 0) [1, 2, 3, 4, 5] 2 = Some (map snd ps) \<and>
         combine sample_digest (\<lambda>i. 0) (map fst ps) (map snd ps) = Inr [1, 2, 3, 4, 5])"
  using combine_split_roundtrip[of 2 "[1, 2, 3, 4, 5]" sample_digest "\<lambda>i. 0" "\<lambda>i. 0"]
  by simp

text \<open>
  C3. For every list of chunks paired with descriptors: if some chunk's length differs from
  its descriptor's size or its digest differs from the descriptor's checksum, \<open>combine\<close>
  fails with \<open>CHUNK_VALIDATION_ERROR\<close> and returns no data; otherwise it returns the
  concatenation of the chunks sorted ascending (and stably) by descriptor index, whose
  length is the sum of the descriptor sizes.
\<close>

theorem combine_validates:
  "((\<exists>p\<in>set ps. chunk_bad H p) \<longrightarrow>
      (\<exists>i. combine H junk (map fst ps) (map snd ps) =
            Inl (StorageError ''Chunk validation failed'' ''CHUNK_VALIDATION_ERROR'' i))) \<and>
   ((\<forall>p\<in>set ps. \<not> chunk_bad H p) \<longrightarrow>
      combine H junk (map fst ps) (map snd ps) =
        Inr (concat (map fst (sort_key (\<lambda>p. ci_index (snd p)) ps))) \<and>
      int (length (concat (map fst (sort_key (\<lambda>p. ci_index (snd p)) ps)))) =
        sum_list (map (\<lambda>p. ci_size (snd p)) ps))"
proof (intro conjI impI)
  let ?s = "sort_key (\<lambda>p. ci_index (snd p)) ps"
  assume "\<exists>p\<in>set ps. chunk_bad H p"
  then have "find (chunk_bad H) ?s \<noteq> None"
    by (auto simp: find_None_iff)
  then obtain p where "find (chunk_bad H) ?s = Some p" by auto
  then show "\<exists>i. combine H junk (map fst ps) (map snd ps) =
            Inl (StorageError ''Chunk validation failed'' ''CHUNK_VALIDATION_ERROR'' i)"
    by (simp add: combine_pairs)
next
  let ?s = "sort_key (\<lambda>p. ci_index (snd p)) ps"
  assume ok: "\<forall>p\<in>set ps. \<not> chunk_bad H p"
  then have "find (chunk_bad H) ?s = None"
    by (auto simp: find_None_iff)
  then show "combine H junk (map fst ps) (map snd ps) = Inr (concat (map fst ?s))"
    by (simp add: combine_pairs)
  have ok': "\<forall>p\<in>set ?s. \<not> chunk_bad H p" using ok by simp
  show "int (length (concat (map fst ?s))) = sum_list (map (\<lambda>p. ci_size (snd p)) ps)"
    using sum_sizes_valid[OF ok'] by (simp only: sum_list_sort_key)
qed

theorem combine_validates_witness:
  "\<not> chunk_bad sample_digest ([3], new_chunk_info 1 1 ''1'' 0) \<and>
   \<not> chunk_bad sample_digest ([1, 2], new_chunk_info 0 2 ''10'' 0) \<and>
   combine sample_digest (\<lambda>i. 0) [[3], [1, 2]] [new_chunk_info 1 1 ''1'' 0, new_chunk_info 0 2 ''10'' 0] =
     Inr [1, 2, 3] \<and>
   chunk_bad sample_digest ([1, 2], new_chunk_info 0 2 ''11'' 0) \<and>
   (\<exists>i. combine sample_digest (\<lambda>i. 0) [[3], [1, 2]] [new_chunk_info 1 1 ''1'' 0, new_chunk_info 0 2 ''11'' 0] =
      Inl (StorageError ''Chunk validation failed'' ''CHUNK_VALIDATION_ERROR'' i))"
  using combine_validates[of "[([3], new_chunk_info 1 1 ''1'' 0), ([1, 2], new_chunk_info 0 2 ''10'' 0)]"
      sample_digest "\<lambda>i. 0"]
    combine_validates[of "[([3], new_chunk_info 1 1 ''1'' 0), ([1, 2], new_chunk_info 0 2 ''11'' 0)]"
      sample_digest "\<lambda>i. 0"]
  by (simp add: chunk_bad_def sample_digest_def new_chunk_info_def)

text \<open>
  C6. For every buffer of length \<open>N\<close> and every chunk size \<open>C > 0\<close>, \<open>split\<close> returns
  exactly \<open>\<lceil>N / C\<rceil>\<close> descriptors; descriptor \<open>i\<close> has index \<open>i\<close>, covers the bytes
  \<open>[iC, min((i+1)C, N))\<close>, has that range's length as size and the digest of those bytes as
  checksum; every size is at most \<open>C\<close>, and the empty buffer gives no chunk.
\<close>

theorem split_descriptors:
  assumes "0 < C"
  shows "\<exists>infos. split H clock data C = Some infos \<and>
     length infos = (length data + C - 1) div C \<and>
     (\<forall>i<length infos.
        i * C < length data \<and>
        ci_index (infos ! i) = int i \<and>
        ci_size (infos ! i) =
          int (length (buf_slice data (i * C) (min ((i + 1) * C) (length data)))) \<and>
        ci_size (infos ! i) = int (min ((i + 1) * C) (length data) - i * C) \<and>
        ci_checksum (infos ! i) =
          H (buf_slice data (i * C) (min ((i + 1) * C) (length data))) \<and>
        ci_size (infos ! i) \<le> int C) \<and>
     (data = [] \<longrightarrow> infos = [])"
proof -
  let ?n = "nchunks (length data) C"
  let ?infos = "map snd (map (chunk_at H clock data C) [0..<?n])"
  have sp: "split H clock data C = Some ?infos"
    by (simp add: split_def split_chunks_closed[OF assms])
  have len: "length ?infos = (length data + C - 1) div C"
    by (simp add: nchunks_def)
  have each: "i * C < length data \<and>
        ci_index (?infos ! i) = int i \<and>
        ci_size (?infos ! i) =
          int (length (buf_slice data (i * C) (min ((i + 1) * C) (length data)))) \<and>
        ci_size (?infos ! i) = int (min ((i + 1) * C) (length data) - i * C) \<and>
        ci_checksum (?infos ! i) =
          H (buf_slice data (i * C) (min ((i + 1) * C) (length data))) \<and>
        ci_size (?infos ! i) \<le> int C" if "i < length ?infos" for i
  proof -
    from that have i: "i < ?n" by simp
    then have lt: "i * C < length data" using assms by (simp add: less_nchunks_iff)
    have nth: "?infos ! i = snd (chunk_at H clock data C i)"
      using i by simp
    have le: "min ((i + 1) * C) (length data) - i * C \<le> C"
      by (auto simp: min_def)
    have ln: "length (buf_slice data (i * C) (min ((i + 1) * C) (length data))) =
              min ((i + 1) * C) (length data) - i * C"
      using lt by (auto simp: buf_slice_def min_def)
    show ?thesis
      unfolding nth using lt le
      by (simp only: chunk_at_def new_chunk_info_def snd_conv ChunkInfo.simps ln of_nat_le_iff)
  qed
  have empty: "data = [] \<longrightarrow> ?infos = []"
    using assms by (simp add: nchunks_def)
  show ?thesis
    using sp len each empty by blast
qed

theorem split_descriptors_witness:
  "(0::nat) < 2 \<and>
   (\<exists>infos. split sample_digest (\<lambda>i. 0) [1, 2, 3, 4, 5] 2 = Some infos \<and> length infos = 3 \<and>
      ci_index (infos ! 2) = 2 \<and> ci_size (infos ! 2) = 1 \<and> ci_checksum (infos ! 2) = ''1'')"
proof -
  obtain infos where sp: "split sample_digest (\<lambda>i. 0) [1, 2, 3, 4, 5] 2 = Some infos"
    and len: "length infos = (length [1, 2, 3, 4, 5 :: byte] + 2 - 1) div 2"
    and each: "\<forall>i<length infos.
        i * 2 < length [1, 2, 3, 4, 5 :: byte] \<and>
        ci_index (infos ! i) = int i \<and>
        ci_size (infos ! i) =
          int (length (buf_slice [1, 2, 3, 4, 5] (i * 2) (min ((i + 1) * 2) (length [1, 2, 3, 4, 5 :: byte])))) \<and>
        ci_size (infos ! i) = int (min ((i + 1) * 2) (length [1, 2, 3, 4, 5 :: byte]) - i * 2) \<and>
        ci_checksum (infos ! i) =
          sample_digest (buf_slice [1, 2, 3, 4, 5] (i * 2) (min ((i + 1) * 2) (length [1, 2, 3, 4, 5 :: byte]))) \<and>
        ci_size (infos ! i) \<le> int 2"
    using split_descriptors[where C = 2 and H = sample_digest and clock = "\<lambda>i. 0"
        and data = "[1, 2, 3, 4, 5]", OF zero_less_numeral] by blast
  from len have l3: "length infos = 3" by simp
  with each have "ci_index (infos ! 2) = 2 \<and> ci_size (infos ! 2) = 1 \<and> ci_checksum (infos ! 2) = ''1''"
    by (simp add: buf_slice_def sample_digest_def)
  with sp l3 show ?thesis by auto
qed

section \<open>Bucket index: properties\<close>

declare bit_length.simps [simp del]

lemma bit_length_0 [simp]: "bit_length 0 = 0"
  by (simp add: bit_length.simps)

lemma bit_length_pos: "0 < n \<Longrightarrow> bit_length n = Suc (bit_length (n div 2))"
  by (subst bit_length.simps) simp

lemma bit_length_eqI: "2 ^ k \<le> n \<Longrightarrow> n < 2 ^ Suc k \<Longrightarrow> bit_length n = Suc k"
proof (induction k arbitrary: n)
  case 0
  then have "n = 1" by simp
  then show ?case by (simp add: bit_length_pos)
next
  case (Suc k)
  have pos: "0 < n" using Suc.prems(1) by (metis not_gr_zero not_less_zero power_eq_0_iff zero_neq_numeral less_le_trans zero_less_power zero_less_numeral)
  have "2 ^ k \<le> n div 2" using Suc.prems(1) by simp
  moreover have "n div 2 < 2 ^ Suc k" using Suc.prems(2) by simp
  ultimately have "bit_length (n div 2) = Suc k" by (rule Suc.IH)
  then show ?case using pos by (simp add: bit_length_pos)
qed

lemma bit_length_bounds:
  "0 < n \<Longrightarrow> 2 ^ (bit_length n - 1) \<le> n \<and> n < 2 ^ bit_length n"
proof (induction n rule: bit_length.induct)
  case (1 n)
  show ?case
  proof (cases "n div 2 = 0")
    case True
    then have "n = 1" using "1.prems" by (simp add: div_eq_0_iff) 
    then show ?thesis by (simp add: bit_length_pos)
  next
    case False
    then have h: "2 ^ (bit_length (n div 2) - 1) \<le> n div 2 \<and> n div 2 < 2 ^ bit_length (n div 2)"
      using "1.IH" "1.prems" by simp
    have bl: "bit_length n = Suc (bit_length (n div 2))"
      using "1.prems" by (rule bit_length_pos)
    have p: "0 < bit_length (n div 2)"
      using False by (simp add: bit_length_pos)
    then obtain k where k: "bit_length (n div 2) = Suc k" by (cases "bit_length (n div 2)") auto
    from h show ?thesis unfolding bl k by simp linarith
  qed
qed

lemma bit_length_pos_iff: "0 < bit_length n \<longleftrightarrow> 0 < n"
  by (cases "n = 0") (simp_all add: bit_length_pos)

lemma bit_length_shift:
  assumes "0 < m" and "r < 2 ^ k"
  shows "bit_length (m * 2 ^ k + r) = bit_length m + k"
proof -
  obtain j where j: "bit_length m = Suc j"
    using assms(1) bit_length_pos_iff[of m] by (cases "bit_length m") auto
  have b: "2 ^ j \<le> m" "m < 2 ^ Suc j"
    using bit_length_bounds[OF assms(1)] j by simp_all
  have lo: "2 ^ (j + k) \<le> m * 2 ^ k + r"
  proof -
    have "(2::nat) ^ j * 2 ^ k \<le> m * 2 ^ k" by (rule mult_le_mono1[OF b(1)])
    then show ?thesis unfolding power_add by (rule trans_le_add1)
  qed
  have hi: "m * 2 ^ k + r < 2 ^ Suc (j + k)"
  proof -
    have "Suc m \<le> 2 ^ Suc j" using b(2) by simp
    then have "Suc m * 2 ^ k \<le> 2 ^ Suc j * 2 ^ k" by (rule mult_le_mono1)
    moreover have "m * 2 ^ k + r < Suc m * 2 ^ k" using assms(2) by simp
    ultimately show ?thesis by (simp add: power_add)
  qed
  show ?thesis using bit_length_eqI[OF lo hi] j by simp
qed


lemma test_bit_iff: "(d AND push_bit n 1 \<noteq> 0) \<longleftrightarrow> (n < 8 \<and> odd (unat d div 2 ^ n))" for d :: byte
proof -
  have "(d AND push_bit n 1 \<noteq> 0) \<longleftrightarrow> bit d n"
    by (simp add: bit_iff_and_push_bit_not_eq_0)
  also have "\<dots> \<longleftrightarrow> n < 8 \<and> bit (unat d) n"
    by (auto simp: bit_unsigned_iff dest: bit_imp_le_length)
  finally show ?thesis by (simp add: bit_nat_def)
qed

lemma first_set_bit_eq:
  fixes d :: byte
  assumes "d \<noteq> 0"
  shows "first_set_bit d = Some (8 - bit_length (unat d))"
proof -
  let ?m = "unat d"
  have pos: "0 < ?m" using assms by (simp add: unat_gt_0)
  have lt: "?m < 2 ^ 8" using unsigned_less[of d] by simp
  obtain k where k: "bit_length ?m = Suc k"
    using pos bit_length_pos_iff[of ?m] by (cases "bit_length ?m") auto
  have b: "2 ^ k \<le> ?m" "?m < 2 ^ Suc k"
    using bit_length_bounds[OF pos] k by simp_all
  have k8: "k < 8"
  proof (rule ccontr)
    assume "\<not> k < 8"
    then have "8 \<le> k" by simp
    then have "(2::nat) ^ 8 \<le> 2 ^ k" by (rule power_increasing) simp
    with b(1) lt show False by linarith
  qed
  let ?j = "7 - k"
  have hit: "d AND push_bit (7 - ?j) 1 \<noteq> 0"
  proof -
    have "?m div 2 ^ k = 1"
      using b by (intro div_nat_eqI) simp_all
    moreover have "7 - ?j = k" using k8 by simp
    ultimately have "7 - ?j < 8 \<and> odd (?m div 2 ^ (7 - ?j))" using k8 by simp
    then show ?thesis by (rule test_bit_iff[THEN iffD2])
  qed
  have miss: "\<not> d AND push_bit (7 - i) 1 \<noteq> 0" if "i < ?j" for i
  proof -
    from that have "Suc k \<le> 7 - i" by simp
    then have "(2::nat) ^ Suc k \<le> 2 ^ (7 - i)" by (rule power_increasing) simp
    with b(2) have "?m div 2 ^ (7 - i) = 0" by simp
    then have "\<not> (7 - i < 8 \<and> odd (?m div 2 ^ (7 - i)))" by simp
    then show ?thesis unfolding test_bit_iff by simp
  qed
  have "find (\<lambda>j. d AND push_bit (7 - j) 1 \<noteq> 0) [0..<8] = Some ?j"
    unfolding find_Some_iff
    using hit miss k8 by (intro exI[of _ ?j]) auto
  then show ?thesis using k by (simp add: first_set_bit_def)
qed

lemma scan_distance_eq:
  "scan_distance ds i =
     (if \<exists>d\<in>set ds. d \<noteq> 0 then Some (i * 8 + leading_zeros ds) else None)"
  by (induction ds arbitrary: i) (auto simp: first_set_bit_eq)

lemma key_value_Cons: "key_value (d # ds) = unat d * 256 ^ length ds + key_value ds"
proof -
  have "foldl (\<lambda>acc b. acc * 256 + unat b) a ds = a * 256 ^ length ds + key_value ds" for a
    unfolding key_value_def
  proof (induction ds rule: rev_induct)
    case Nil
    show ?case by simp
  next
    case (snoc x xs)
    then show ?case by (simp add: algebra_simps)
  qed
  from this[of "unat d"] show ?thesis by (simp add: key_value_def)
qed

lemma key_value_Nil [simp]: "key_value [] = 0"
  by (simp add: key_value_def)

lemma key_value_less: "key_value ds < 256 ^ length ds"
proof (induction ds)
  case Nil
  show ?case by simp
next
  case (Cons d ds)
  let ?P = "(256::nat) ^ length ds"
  have "unat d < 256" using unsigned_less[of d] by simp
  then have "Suc (unat d) \<le> 256" by simp
  then have le: "Suc (unat d) * ?P \<le> 256 * ?P"
    by (rule mult_le_mono1)
  have "unat d * ?P + key_value ds < unat d * ?P + ?P"
    using Cons by simp
  also have "\<dots> = Suc (unat d) * ?P" by simp
  also note le
  finally show ?case by (simp add: key_value_Cons)
qed

lemma bit_length_key_value:
  "\<exists>d\<in>set ds. d \<noteq> 0 \<Longrightarrow> bit_length (key_value ds) + leading_zeros ds = 8 * length ds"
proof (induction ds)
  case Nil
  then show ?case by simp
next
  case (Cons d ds)
  show ?case
  proof (cases "d = 0")
    case True
    with Cons show ?thesis by (simp add: key_value_Cons)
  next
    case False
    then have pos: "0 < unat d" by (simp add: unat_gt_0)
    have p: "(256::nat) ^ length ds = 2 ^ (8 * length ds)"
      by (simp add: power_mult)
    have r: "key_value ds < 2 ^ (8 * length ds)"
      using key_value_less[of ds] by (simp only: p)
    have le8: "bit_length (unat d) \<le> 8"
    proof -
      have "2 ^ (bit_length (unat d) - 1) \<le> unat d"
        using bit_length_bounds[OF pos] by simp
      moreover have "unat d < 2 ^ 8" using unsigned_less[of d] by simp
      ultimately have "(2::nat) ^ (bit_length (unat d) - 1) < 2 ^ 8" by (rule le_less_trans)
      then have "bit_length (unat d) - 1 < 8" by (rule power_less_imp_less_exp[rotated]) simp
      then show ?thesis by simp
    qed
    have "bit_length (key_value (d # ds)) = bit_length (unat d) + 8 * length ds"
      unfolding key_value_Cons p by (rule bit_length_shift[OF pos r])
    with False le8 show ?thesis by simp
  qed
qed

lemma unhex_nat:
  "unhex c = (if 48 \<le> (of_char c :: nat) \<and> (of_char c :: nat) \<le> 57 then Some (of_char c - 48)
      else if 97 \<le> (of_char c :: nat) \<and> (of_char c :: nat) \<le> 102 then Some (of_char c - 87)
      else if 65 \<le> (of_char c :: nat) \<and> (of_char c :: nat) \<le> 70 then Some (of_char c - 55)
      else None)"
  unfolding unhex_def Let_def ..

lemma unhex_lower: "is_lower_hex c \<Longrightarrow> \<exists>x<16. unhex c = Some x"
proof -
  assume a: "is_lower_hex c"
  define n where "n = (of_char c :: nat)"
  have r: "(48 \<le> n \<and> n \<le> 57) \<or> (97 \<le> n \<and> n \<le> 102)"
    using a unfolding is_lower_hex_def Let_def n_def .
  have u: "unhex c = (if 48 \<le> n \<and> n \<le> 57 then Some (n - 48)
      else if 97 \<le> n \<and> n \<le> 102 then Some (n - 87)
      else if 65 \<le> n \<and> n \<le> 70 then Some (n - 55)
      else None)"
    unfolding n_def by (rule unhex_nat)
  from r show ?thesis
  proof
    assume h: "48 \<le> n \<and> n \<le> 57"
    then have "unhex c = Some (n - 48)" unfolding u by simp
    moreover from h have "n - 48 < 16" by arith
    ultimately show ?thesis by blast
  next
    assume h: "97 \<le> n \<and> n \<le> 102"
    then have "unhex c = Some (n - 87)" unfolding u by simp
    moreover from h have "n - 87 < 16" by arith
    ultimately show ?thesis by blast
  qed
qed

lemma unhex_inj:
  assumes "is_lower_hex c" and "is_lower_hex c'" and "unhex c = unhex c'"
  shows "c = c'"
proof -
  define n where "n = (of_char c :: nat)"
  define n' where "n' = (of_char c' :: nat)"
  have r: "(48 \<le> n \<and> n \<le> 57) \<or> (97 \<le> n \<and> n \<le> 102)"
    using assms(1) unfolding is_lower_hex_def Let_def n_def .
  have r': "(48 \<le> n' \<and> n' \<le> 57) \<or> (97 \<le> n' \<and> n' \<le> 102)"
    using assms(2) unfolding is_lower_hex_def Let_def n'_def .
  have u: "unhex c = (if 48 \<le> n \<and> n \<le> 57 then Some (n - 48)
      else if 97 \<le> n \<and> n \<le> 102 then Some (n - 87)
      else if 65 \<le> n \<and> n \<le> 70 then Some (n - 55)
      else None)"
    unfolding n_def by (rule unhex_nat)
  have u': "unhex c' = (if 48 \<le> n' \<and> n' \<le> 57 then Some (n' - 48)
      else if 97 \<le> n' \<and> n' \<le> 102 then Some (n' - 87)
      else if 65 \<le> n' \<and> n' \<le> 70 then Some (n' - 55)
      else None)"
    unfolding n'_def by (rule unhex_nat)
  have "n = n'"
  proof (cases "48 \<le> n \<and> n \<le> 57")
    case d: True
    then have e: "unhex c = Some (n - 48)" unfolding u by simp
    show ?thesis
    proof (cases "48 \<le> n' \<and> n' \<le> 57")
      case True
      then have "unhex c' = Some (n' - 48)" unfolding u' by simp
      with e assms(3) have "n - 48 = n' - 48" by simp
      with d True show ?thesis by arith
    next
      case False
      with r' have l: "97 \<le> n' \<and> n' \<le> 102" by blast
      with False have "unhex c' = Some (n' - 87)" unfolding u' by simp
      with e assms(3) have "n - 48 = n' - 87" by simp
      with d l show ?thesis by arith
    qed
  next
    case nd: False
    with r have l: "97 \<le> n \<and> n \<le> 102" by blast
    with nd have e: "unhex c = Some (n - 87)" unfolding u by simp
    show ?thesis
    proof (cases "48 \<le> n' \<and> n' \<le> 57")
      case True
      then have "unhex c' = Some (n' - 48)" unfolding u' by simp
      with e assms(3) have "n - 87 = n' - 48" by simp
      with l True show ?thesis by arith
    next
      case False
      with r' have l': "97 \<le> n' \<and> n' \<le> 102" by blast
      with False have "unhex c' = Some (n' - 87)" unfolding u' by simp
      with e assms(3) have "n - 87 = n' - 87" by simp
      with l l' show ?thesis by arith
    qed
  qed
  then show ?thesis unfolding n_def n'_def by (simp only: of_char_eq_iff)
qed

lemma hex_byte_inj:
  assumes "x < 16" "y < 16" "x' < 16" "y' < 16"
    and "(of_nat (16 * x + y) :: byte) = of_nat (16 * x' + y')"
  shows "x = x' \<and> y = y'"
proof -
  have U: "unat (word_of_nat n :: byte) = n" if "n < 256" for n
    using that by (simp add: unat_of_nat)
  have c1: "16 * x + y < 256" and c2: "16 * x' + y' < 256"
    using assms(1-4) by simp_all
  have "unat (of_nat (16 * x + y) :: byte) = unat (of_nat (16 * x' + y') :: byte)"
    using assms(5) by (rule arg_cong)
  then have e: "16 * x + y = 16 * x' + y'"
    unfolding U[OF c1] U[OF c2] .
  then have "(16 * x + y) div 16 = (16 * x' + y') div 16" by (simp only:)
  then have x: "x = x'" using assms(2,4) by simp
  with e have "y = y'" by simp
  with x show ?thesis by simp
qed

lemma length_hex_decode:
  "list_all is_lower_hex s \<Longrightarrow> length (hex_decode s) = length s div 2"
proof (induction s rule: hex_decode.induct)
  case (1 a b rest)
  then obtain x y where "unhex a = Some x" "unhex b = Some y"
    using unhex_lower[of a] unhex_lower[of b] by auto
  with 1 show ?case by simp
qed simp_all

lemma hex_decode_inj:
  "list_all is_lower_hex s \<Longrightarrow> list_all is_lower_hex s' \<Longrightarrow> length s = length s' \<Longrightarrow>
   even (length s) \<Longrightarrow> hex_decode s = hex_decode s' \<Longrightarrow> s = s'"
proof (induction s arbitrary: s' rule: hex_decode.induct)
  case (1 a b rest)
  from "1.prems"(3) obtain a' b' rest' where s': "s' = a' # b' # rest'"
    by (cases s'; cases "tl s'") auto
  obtain x y where xy: "x < 16" "unhex a = Some x" "y < 16" "unhex b = Some y"
    using unhex_lower[of a] unhex_lower[of b] "1.prems"(1) by auto
  obtain x' y' where xy': "x' < 16" "unhex a' = Some x'" "y' < 16" "unhex b' = Some y'"
    using unhex_lower[of a'] unhex_lower[of b'] "1.prems"(2) s' by auto
  from "1.prems"(5) have hd: "(of_nat (16 * x + y) :: byte) = of_nat (16 * x' + y')"
    and tl: "hex_decode rest = hex_decode rest'"
    by (simp_all add: s' xy xy')
  have "x = x' \<and> y = y'"
    by (rule hex_byte_inj[OF xy(1) xy(3) xy'(1) xy'(3) hd])
  then have ux: "unhex a = unhex a'" and uy: "unhex b = unhex b'"
    using xy xy' by simp_all
  have la: "is_lower_hex a" "is_lower_hex b" using "1.prems"(1) by simp_all
  have la': "is_lower_hex a'" "is_lower_hex b'" using "1.prems"(2) s' by simp_all
  have a: "a = a'" by (rule unhex_inj[OF la(1) la'(1) ux])
  have b: "b = b'" by (rule unhex_inj[OF la(2) la'(2) uy])
  have "rest = rest'"
    using "1.IH"[OF xy(2) xy(4), of rest'] "1.prems" tl s' by simp
  with a b show ?case by (simp add: s')
next
  case (2 a)
  from "2.prems"(4) show ?case by simp
next
  case 3
  then show ?case by simp
qed

lemma xor_zero_eq:
  fixes x y :: byte
  assumes "x XOR y = 0"
  shows "x = y"
proof -
  have "y = (x XOR x) XOR y" by simp
  also have "\<dots> = x XOR (x XOR y)" by (simp only: xor.assoc)
  also have "\<dots> = x" by (simp add: assms)
  finally show ?thesis by simp
qed

lemma distance_nonzero:
  assumes "is_key a" and "is_key b" and "a \<noteq> b"
  shows "\<exists>d\<in>set (distance a b). d \<noteq> 0"
proof -
  have la: "length (hex_decode a) = 32" and lb: "length (hex_decode b) = 32"
    using assms(1,2) by (simp_all add: is_key_def length_hex_decode)
  have "hex_decode a \<noteq> hex_decode b"
  proof
    assume "hex_decode a = hex_decode b"
    moreover have "list_all is_lower_hex a" "list_all is_lower_hex b"
      "length a = length b" "even (length a)"
      using assms(1,2) by (simp_all add: is_key_def)
    ultimately have "a = b" by (intro hex_decode_inj)
    with assms(3) show False by simp
  qed
  then have "\<exists>i<32. hex_decode a ! i \<noteq> hex_decode b ! i"
    using la lb by (auto simp: list_eq_iff_nth_eq)
  then obtain i where i: "i < 32" "hex_decode a ! i \<noteq> hex_decode b ! i"
    by blast
  have "distance a b ! i = hex_decode a ! i XOR hex_decode b ! i"
    using i(1) la lb by (simp add: distance_def KEY_SIZE_def buffer_get_def)
  with i(2) have nz: "distance a b ! i \<noteq> 0" using xor_zero_eq by auto
  have "i < length (distance a b)"
    using i(1) by (simp add: distance_def KEY_SIZE_def)
  then have "distance a b ! i \<in> set (distance a b)" by (rule nth_mem)
  with nz show ?thesis by blast
qed

lemma length_distance: "length (distance a b) = 32"
  by (simp add: distance_def KEY_SIZE_def)

lemma key_value_pos: "\<exists>d\<in>set ds. d \<noteq> 0 \<Longrightarrow> 0 < key_value ds"
proof (induction ds)
  case Nil
  then show ?case by simp
next
  case (Cons d ds)
  show ?case
  proof (cases "d = 0")
    case True
    with Cons show ?thesis by (simp add: key_value_Cons)
  next
    case False
    then have "0 < unat d" by (simp add: unat_gt_0)
    then show ?thesis by (simp add: key_value_Cons)
  qed
qed

text \<open>
  C2, as the code has it. For every pair of distinct 256-bit ids, the bucket index is the
  number of zero bits before the most-significant set bit of the XOR distance, that is
  255 minus the index of that bit counted from the least-significant end. The farthest
  pairs (top bit set) get index 0 and the closest pair (distance 1) gets index 255.
\<close>

theorem bucket_index_counts_from_top:
  assumes "is_key self" and "is_key peer" and "self \<noteq> peer"
  shows "0 < key_value (distance self peer) \<and>
         msb_index (key_value (distance self peer)) \<le> 255 \<and>
         getBucketIndex self 256 peer = 255 - int (msb_index (key_value (distance self peer))) \<and>
         getBucketIndex self 256 peer = int (leading_zeros (distance self peer))"
proof -
  let ?ds = "distance self peer"
  have nz: "\<exists>d\<in>set ?ds. d \<noteq> 0" by (rule distance_nonzero[OF assms])
  have bl: "bit_length (key_value ?ds) + leading_zeros ?ds = 256"
    using bit_length_key_value[OF nz] by (simp add: length_distance)
  have idx: "getBucketIndex self 256 peer = int (leading_zeros ?ds)"
    using nz by (simp add: getBucketIndex_def scan_distance_eq)
  have pos: "0 < key_value ?ds" by (rule key_value_pos[OF nz])
  then obtain k where k: "bit_length (key_value ?ds) = Suc k"
    using bit_length_pos_iff[of "key_value ?ds"] by (cases "bit_length (key_value ?ds)") auto
  have m: "msb_index (key_value ?ds) = k" by (simp add: msb_index_def k)
  from bl k have s: "k + leading_zeros ?ds = 255" by simp
  then have le: "k \<le> 255" by simp
  from s have "int k + int (leading_zeros ?ds) = 255"
    by (simp only: of_nat_add[symmetric])
  then have "int (leading_zeros ?ds) = 255 - int k" by simp
  with pos le idx show ?thesis by (simp only: m)
qed

theorem bucket_index_counts_from_top_witness:
  "is_key key_zero \<and> is_key key_top \<and> key_zero \<noteq> key_top \<and>
   getBucketIndex key_zero 256 key_top =
     255 - int (msb_index (key_value (distance key_zero key_top))) \<and>
   getBucketIndex key_zero 256 key_top = 0"
proof -
  have a: "is_key key_zero" by code_simp
  have b: "is_key key_top" by code_simp
  have c: "key_zero \<noteq> key_top" by code_simp
  have d: "getBucketIndex key_zero 256 key_top = 0" by code_simp
  from bucket_index_counts_from_top[OF a b c] a b c d show ?thesis by simp
qed

text \<open>
  C2, as it is stated, fails: the ids \<open>00\<dots>00\<close> and \<open>00\<dots>01\<close> are at distance 1, whose
  most-significant set bit has index 0, and the bucket index computed is 255.
\<close>

theorem bucket_index_msb_counterexample:
  "is_key key_zero \<and> is_key key_one \<and> key_zero \<noteq> key_one \<and>
   key_value (distance key_zero key_one) = 1 \<and>
   msb_index (key_value (distance key_zero key_one)) = 0 \<and>
   getBucketIndex key_zero 256 key_one = 255 \<and>
   getBucketIndex key_zero 256 key_one \<noteq> int (msb_index (key_value (distance key_zero key_one)))"
proof -
  have a: "is_key key_zero" by code_simp
  have b: "is_key key_one" by code_simp
  have c: "key_zero \<noteq> key_one" by code_simp
  have d: "key_value (distance key_zero key_one) = 1" by code_simp
  have e: "msb_index 1 = 0" by code_simp
  have f: "getBucketIndex key_zero 256 key_one = 255" by code_simp
  from a b c d e f show ?thesis by simp
qed

section \<open>Message validation: properties\<close>

text \<open>
  C7, as the code has it. \<open>validateMessage\<close> returns false whenever the \<open>dhtType\<close> is
  missing, or the sender is missing, or the key is present, is not the empty string and is
  not exactly 64 lowercase hexadecimal characters, or the timestamp differs from the
  current time by more than five minutes.
\<close>

theorem validateMessage_rejects:
  assumes "msg_dhtType m = None \<or> pl_sender (msg_payload m) = None \<or>
           (\<exists>k. pl_key (msg_payload m) = Some k \<and> k \<noteq> [] \<and> \<not> key_regex_test k) \<or>
           \<bar>now - pl_timestamp (msg_payload m)\<bar> > 5 * 60 * 1000"
  shows "\<not> validateMessage now m"
  using assms by (auto simp: validateMessage_def MAX_TIME_DIFF_def)

theorem validateMessage_rejects_witness:
  "pl_key (msg_payload (sample_message (Some ''abc'') 0)) = Some ''abc'' \<and>
   \<not> key_regex_test ''abc'' \<and>
   \<not> validateMessage 0 (sample_message (Some ''abc'') 0) \<and>
   \<bar>700000 - pl_timestamp (msg_payload (sample_message None 0))\<bar> > 5 * 60 * 1000 \<and>
   \<not> validateMessage 700000 (sample_message None 0)"
proof -
  have k: "pl_key (msg_payload (sample_message (Some ''abc'') 0)) = Some ''abc''"
    by (simp add: sample_message_def)
  have r: "\<not> key_regex_test ''abc''" by (simp add: key_regex_test_def)
  have a: "\<not> validateMessage 0 (sample_message (Some ''abc'') 0)"
    by (rule validateMessage_rejects) (simp add: k r)
  have t: "\<bar>700000 - pl_timestamp (msg_payload (sample_message None 0))\<bar> > 5 * 60 * 1000"
    by (simp add: sample_message_def)
  have b: "\<not> validateMessage 700000 (sample_message None 0)"
    by (rule validateMessage_rejects) (simp add: sample_message_def)
  from k r a t b show ?thesis by blast
qed

text \<open>
  C7, as it is stated, fails: a key that is present but empty is not 64 hexadecimal
  characters, and the message is accepted.
\<close>

theorem validateMessage_empty_key_counterexample:
  "pl_key (msg_payload (sample_message (Some '''') 0)) = Some '''' \<and>
   \<not> key_regex_test '''' \<and>
   validateMessage 0 (sample_message (Some '''') 0)"
  by (simp add: sample_message_def key_regex_test_def validateMessage_def MAX_TIME_DIFF_def
      key_one_def)

section \<open>Routing table: properties\<close>

lemma findIndex_None_iff: "findIndex P xs = None \<longleftrightarrow> (\<forall>x\<in>set xs. \<not> P x)"
  by (induction xs) auto

lemma findIndex_Some_first: "findIndex P xs = Some i \<Longrightarrow> first_index P xs i"
proof (induction xs arbitrary: i)
  case Nil
  then show ?case by simp
next
  case (Cons x xs)
  show ?case
  proof (cases "P x")
    case True
    with Cons.prems show ?thesis by (simp add: first_index_def)
  next
    case False
    with Cons.prems obtain j where j: "findIndex P xs = Some j" "i = Suc j"
      by auto
    from Cons.IH[OF j(1)] False show ?thesis
      by (simp add: first_index_def j(2))
  qed
qed

lemma findIndex_cases:
  "(\<forall>x\<in>set xs. \<not> P x) \<and> findIndex P xs = None \<or>
   (\<exists>x\<in>set xs. P x) \<and> (\<exists>i. findIndex P xs = Some i \<and> first_index P xs i)"
proof (cases "findIndex P xs")
  case None
  then show ?thesis by (simp add: findIndex_None_iff)
next
  case (Some i)
  then have "\<not> (\<forall>x\<in>set xs. \<not> P x)"
    using findIndex_None_iff[of P xs] by simp
  with Some findIndex_Some_first[OF Some] show ?thesis by blast
qed

lemma leading_zeros_less:
  assumes "\<exists>d\<in>set ds. d \<noteq> 0"
  shows "leading_zeros ds < 8 * length ds"
proof -
  have "0 < key_value ds" by (rule key_value_pos[OF assms])
  then have "0 < bit_length (key_value ds)" by (simp add: bit_length_pos_iff)
  with bit_length_key_value[OF assms] show ?thesis by simp
qed

lemma getBucketIndex_range:
  assumes "256 \<le> n"
  shows "0 \<le> getBucketIndex nid n pid \<and> getBucketIndex nid n pid < int n"
proof (cases "\<exists>d\<in>set (distance nid pid). d \<noteq> 0")
  case True
  then have "getBucketIndex nid n pid = int (leading_zeros (distance nid pid))"
    by (simp add: getBucketIndex_def scan_distance_eq)
  moreover have "leading_zeros (distance nid pid) < 256"
    using leading_zeros_less[OF True] by (simp add: length_distance)
  ultimately show ?thesis using assms by simp
next
  case False
  then have "getBucketIndex nid n pid = int n - 1"
    by (simp add: getBucketIndex_def scan_distance_eq)
  then show ?thesis using assms by simp
qed

lemma peer_id_seen_at [simp]: "peer_id (seen_at now p) = peer_id p"
  by (simp add: seen_at_def)

lemma lastSeen_seen_at [simp]: "pm_lastSeen (peer_metadata (seen_at now p)) = now"
  by (simp add: seen_at_def)

lemma findStalePeer_eq:
  "findStalePeer now b = findIndex (is_stale now) (peers b)"
proof -
  have "is_stale now = (\<lambda>peer. now - pm_lastSeen (peer_metadata peer) > STALE_THRESHOLD)"
    by (simp add: fun_eq_iff is_stale_def STALE_THRESHOLD_def)
  then show ?thesis by (simp only: findStalePeer_def)
qed

lemma bucket_update_eq [simp]:
  "(b :: Bucket)\<lparr> peers := ps, lastUpdated := u \<rparr> = \<lparr> peers = ps, lastUpdated = u \<rparr>"
  by (cases b) simp

lemma bucket_touch_eq [simp]:
  "(b :: Bucket)\<lparr> lastUpdated := u \<rparr> = \<lparr> peers = peers b, lastUpdated = u \<rparr>"
  by (cases b) simp

lemma addPeer_result:
  assumes "bucket_at t (getBucketIndex (nodeId t) (numberOfBuckets t) (peer_id p)) = Some b"
  shows "\<exists>ps. addPeer clk p t =
           Inr (t\<lparr> buckets := (buckets t)
                 [nat (getBucketIndex (nodeId t) (numberOfBuckets t) (peer_id p)) :=
                    \<lparr> peers = ps, lastUpdated = now_updated clk \<rparr>] \<rparr>) \<and>
         new_peers (kSize t) clk p (peers b) ps"
proof -
  let ?idx = "getBucketIndex (nodeId t) (numberOfBuckets t) (peer_id p)"
  let ?same = "\<lambda>q. peer_id q = peer_id p"
  have same: "has_id (peer_id p) = ?same" by (simp add: has_id_def fun_eq_iff)
  from findIndex_cases[of "peers b" ?same]
  show ?thesis
  proof (elim disjE conjE exE)
    assume none: "\<forall>x\<in>set (peers b). \<not> ?same x" and fi: "findIndex ?same (peers b) = None"
    show ?thesis
    proof (cases "int (length (peers b)) < kSize t")
      case True
      with none fi assms show ?thesis
        by (simp add: addPeer_def addPeerToBucket_def new_peers_def same)
    next
      case False
      from findIndex_cases[of "peers b" "is_stale (now_stale clk)"]
      show ?thesis
      proof (elim disjE conjE exE)
        assume "\<forall>x\<in>set (peers b). \<not> is_stale (now_stale clk) x"
          and "findIndex (is_stale (now_stale clk)) (peers b) = None"
        with none fi assms False show ?thesis
          by (simp add: addPeer_def addPeerToBucket_def new_peers_def same findStalePeer_eq)
      next
        fix j
        assume "\<exists>x\<in>set (peers b). is_stale (now_stale clk) x"
          and "findIndex (is_stale (now_stale clk)) (peers b) = Some j"
          and "first_index (is_stale (now_stale clk)) (peers b) j"
        with none fi assms False show ?thesis
          by (auto simp: addPeer_def addPeerToBucket_def new_peers_def same findStalePeer_eq)
      qed
    qed
  next
    fix i
    assume "\<exists>x\<in>set (peers b). ?same x" and "findIndex ?same (peers b) = Some i"
      and "first_index ?same (peers b) i"
    with assms show ?thesis
      by (auto simp: addPeer_def new_peers_def same)
  qed
qed

text \<open>
  C4, as the code has it. \<open>addPeer(p)\<close> takes the bucket at the bucket index of \<open>p.id\<close>
  and then: if \<open>p\<close> is already in the bucket, replaces the record at its position by \<open>p\<close>
  with \<open>lastSeen\<close> refreshed (the position is kept); else if the bucket holds fewer than
  \<open>k\<close> peers, appends \<open>p\<close>; else if some peer was last seen more than one hour ago,
  replaces the first such peer by \<open>p\<close>; otherwise leaves the peers unchanged. In every
  case \<open>lastUpdated\<close> of the bucket is refreshed and no other bucket changes.
\<close>

theorem addPeer_behaviour:
  assumes "bucket_at t (getBucketIndex (nodeId t) (numberOfBuckets t) (peer_id p)) = Some b"
  shows "\<exists>ps. addPeer clk p t =
           Inr (t\<lparr> buckets := (buckets t)
                 [nat (getBucketIndex (nodeId t) (numberOfBuckets t) (peer_id p)) :=
                    \<lparr> peers = ps, lastUpdated = now_updated clk \<rparr>] \<rparr>) \<and>
         peer_id (seen_at (now_seen clk) p) = peer_id p \<and>
         pm_lastSeen (peer_metadata (seen_at (now_seen clk) p)) = now_seen clk \<and>
         (if \<exists>q\<in>set (peers b). has_id (peer_id p) q
          then \<exists>i. first_index (has_id (peer_id p)) (peers b) i \<and>
                   ps = (peers b)[i := seen_at (now_seen clk) p]
          else if int (length (peers b)) < kSize t
          then ps = peers b @ [seen_at (now_seen clk) p]
          else if \<exists>q\<in>set (peers b). is_stale (now_stale clk) q
          then \<exists>j. first_index (is_stale (now_stale clk)) (peers b) j \<and>
                   ps = (peers b)[j := seen_at (now_seen clk) p]
          else ps = peers b)"
  using addPeer_result[OF assms, of clk] unfolding new_peers_def by simp

theorem addPeer_behaviour_witness:
  "bucket_at (new_KBucket key_zero 20 256 (\<lambda>i. 0))
     (getBucketIndex (nodeId (new_KBucket key_zero 20 256 (\<lambda>i. 0)))
        (numberOfBuckets (new_KBucket key_zero 20 256 (\<lambda>i. 0))) (peer_id (sample_peer key_two 0))) =
     Some \<lparr> peers = [], lastUpdated = 0 \<rparr> \<and>
   (\<exists>ps. addPeer (tick 5) (sample_peer key_two 0) (new_KBucket key_zero 20 256 (\<lambda>i. 0)) =
      Inr ((new_KBucket key_zero 20 256 (\<lambda>i. 0))\<lparr> buckets :=
             (buckets (new_KBucket key_zero 20 256 (\<lambda>i. 0)))
               [nat (getBucketIndex (nodeId (new_KBucket key_zero 20 256 (\<lambda>i. 0)))
                  (numberOfBuckets (new_KBucket key_zero 20 256 (\<lambda>i. 0)))
                  (peer_id (sample_peer key_two 0))) :=
                \<lparr> peers = ps, lastUpdated = now_updated (tick 5) \<rparr>] \<rparr>) \<and>
      ps = [seen_at 5 (sample_peer key_two 0)])"
proof -
  let ?t = "new_KBucket key_zero 20 256 (\<lambda>i. 0)"
  let ?p = "sample_peer key_two 0"
  have h: "bucket_at ?t (getBucketIndex (nodeId ?t) (numberOfBuckets ?t) (peer_id ?p)) =
           Some \<lparr> peers = [], lastUpdated = 0 \<rparr>"
    by code_simp
  have k: "kSize ?t = 20" by (simp add: new_KBucket_def)
  have s: "now_seen (tick 5) = 5" by (simp add: tick_def)
  from addPeer_behaviour[OF h, of "tick 5"] h show ?thesis
    by (simp add: k s)
qed

text \<open>
  C4, as it is stated, fails: a peer that is already in its bucket is not moved to the
  tail. After adding the peers \<open>00\<dots>02\<close> and \<open>00\<dots>03\<close> (both in bucket 254) and then
  \<open>00\<dots>02\<close> again, the bucket still lists \<open>00\<dots>02\<close> first; only its \<open>lastSeen\<close> changed.
\<close>

theorem addPeer_keeps_position_counterexample:
  "map_sum id (\<lambda>t. map (\<lambda>q. (peer_id q, pm_lastSeen (peer_metadata q))) (peers (buckets t ! 254)))
     (run_ops [AddPeer (tick 1) (sample_peer key_two 0),
               AddPeer (tick 2) (sample_peer key_three 0),
               AddPeer (tick 3) (sample_peer key_two 0)]
        (new_KBucket key_zero 20 256 (\<lambda>i. 0))) =
   Inr [(key_two, 3), (key_three, 2)]"
  by code_simp

lemma table_inv_nth:
  "table_inv t \<Longrightarrow> i < length (buckets t) \<Longrightarrow> bucket_ok t i"
  by (simp add: table_inv_def list_all_iff)

lemma table_inv_update:
  assumes inv: "table_inv t" and i: "i < length (buckets t)"
    and d: "distinct (map peer_id ps)"
    and l: "int (length ps) \<le> max 0 (kSize t)"
    and g: "\<forall>q\<in>set ps. getBucketIndex (nodeId t) (numberOfBuckets t) (peer_id q) = int i"
  shows "table_inv (t\<lparr> buckets := (buckets t)[i := \<lparr> peers = ps, lastUpdated = u \<rparr>] \<rparr>)"
proof -
  let ?t' = "t\<lparr> buckets := (buckets t)[i := \<lparr> peers = ps, lastUpdated = u \<rparr>] \<rparr>"
  have "bucket_ok ?t' j" if j: "j < length (buckets t)" for j
  proof (cases "j = i")
    case True
    with i d l g show ?thesis by (simp add: bucket_ok_def list_all_iff)
  next
    case False
    with table_inv_nth[OF inv j] show ?thesis by (simp add: bucket_ok_def)
  qed
  then show ?thesis using inv by (simp add: table_inv_def list_all_iff)
qed

lemma table_inv_bucket_at:
  assumes "table_inv t"
  shows "0 \<le> getBucketIndex (nodeId t) (numberOfBuckets t) pid \<and>
         nat (getBucketIndex (nodeId t) (numberOfBuckets t) pid) < length (buckets t) \<and>
         bucket_at t (getBucketIndex (nodeId t) (numberOfBuckets t) pid) =
           Some (buckets t ! nat (getBucketIndex (nodeId t) (numberOfBuckets t) pid))"
proof -
  let ?idx = "getBucketIndex (nodeId t) (numberOfBuckets t) pid"
  have n: "256 \<le> numberOfBuckets t" and len: "length (buckets t) = numberOfBuckets t"
    using assms by (simp_all add: table_inv_def)
  from getBucketIndex_range[OF n, of "nodeId t" pid]
  have nn: "0 \<le> ?idx" and lt: "?idx < int (numberOfBuckets t)" by simp_all
  from nn lt have "nat ?idx < numberOfBuckets t" by (simp add: nat_less_iff)
  then have l: "nat ?idx < length (buckets t)" by (simp only: len)
  with nn show ?thesis by (simp add: bucket_at_def)
qed

lemma set_ids_update:
  "set (concat (map F (bs[i := b]))) \<subseteq> set (F b) \<union> set (concat (map F bs))"
proof -
  have "set (bs[i := b]) \<subseteq> insert b (set bs)" by (rule set_update_subset_insert)
  then show ?thesis by auto
qed

lemma set_ids_nth:
  "i < length bs \<Longrightarrow> set (F (bs ! i)) \<subseteq> set (concat (map F bs))"
proof -
  assume "i < length bs"
  then have "bs ! i \<in> set bs" by (rule nth_mem)
  then show ?thesis by auto
qed

lemma update_inv:
  assumes j: "j < length xs"
    and d: "distinct (map peer_id xs)"
    and g: "\<forall>q\<in>set xs. G (peer_id q)" and gs: "G (peer_id s)"
    and fresh: "peer_id s = peer_id (xs ! j) \<or> peer_id s \<notin> set (map peer_id xs)"
  shows "distinct (map peer_id (xs[j := s])) \<and> length (xs[j := s]) = length xs \<and>
         (\<forall>q\<in>set (xs[j := s]). G (peer_id q)) \<and>
         set (map peer_id (xs[j := s])) \<subseteq> insert (peer_id s) (set (map peer_id xs))"
proof -
  have sub: "set (xs[j := s]) \<subseteq> insert s (set xs)"
    by (rule set_update_subset_insert)
  have gg: "\<forall>q\<in>set (xs[j := s]). G (peer_id q)"
  proof
    fix q assume "q \<in> set (xs[j := s])"
    with sub have "q = s \<or> q \<in> set xs" by blast
    with g gs show "G (peer_id q)" by blast
  qed
  have ids: "map peer_id (xs[j := s]) = (map peer_id xs)[j := peer_id s]"
    by (rule map_update)
  have dd: "distinct ((map peer_id xs)[j := peer_id s])"
  proof (rule distinct_list_update[OF d])
    from fresh j show "peer_id s \<notin> set (map peer_id xs) - {map peer_id xs ! j}"
      by auto
  qed
  have ss: "set ((map peer_id xs)[j := peer_id s]) \<subseteq> insert (peer_id s) (set (map peer_id xs))"
    by (rule set_update_subset_insert)
  from dd gg ss show ?thesis by (simp add: ids)
qed

lemma new_peers_inv:
  assumes np: "new_peers k clk p xs ps"
    and d: "distinct (map peer_id xs)"
    and l: "int (length xs) \<le> max 0 k"
    and g: "\<forall>q\<in>set xs. G (peer_id q)" and gp: "G (peer_id p)"
  shows "distinct (map peer_id ps) \<and> int (length ps) \<le> max 0 k \<and>
         (\<forall>q\<in>set ps. G (peer_id q)) \<and>
         set (map peer_id ps) \<subseteq> insert (peer_id p) (set (map peer_id xs))"
proof -
  let ?s = "seen_at (now_seen clk) p"
  have gs: "G (peer_id ?s)" using gp by simp
  show ?thesis
  proof (cases "\<exists>q\<in>set xs. has_id (peer_id p) q")
    case True
    with np obtain i where i: "first_index (has_id (peer_id p)) xs i" and ps: "ps = xs[i := ?s]"
      unfolding new_peers_def by auto
    from i have il: "i < length xs" and pi: "peer_id (xs ! i) = peer_id p"
      by (simp_all add: first_index_def has_id_def)
    have fresh: "peer_id ?s = peer_id (xs ! i) \<or> peer_id ?s \<notin> set (map peer_id xs)"
      using pi by simp
    from update_inv[OF il d g gs fresh] l show ?thesis
      unfolding ps by simp
  next
    case absent: False
    then have nin: "peer_id p \<notin> set (map peer_id xs)" by (auto simp: has_id_def)
    show ?thesis
    proof (cases "int (length xs) < k")
      case True
      with np absent have ps: "ps = xs @ [?s]" unfolding new_peers_def by simp
      from True have "int (length xs) + 1 \<le> max 0 k" by simp
      with d nin g gp show ?thesis unfolding ps by auto
    next
      case full: False
      show ?thesis
      proof (cases "\<exists>q\<in>set xs. is_stale (now_stale clk) q")
        case True
        with np absent full obtain j where j: "first_index (is_stale (now_stale clk)) xs j"
          and ps: "ps = xs[j := ?s]"
          unfolding new_peers_def by auto
        from j have jl: "j < length xs" by (simp add: first_index_def)
        have fresh: "peer_id ?s = peer_id (xs ! j) \<or> peer_id ?s \<notin> set (map peer_id xs)"
          using nin by simp
        from update_inv[OF jl d g gs fresh] l show ?thesis
          unfolding ps by simp
      next
        case False
        with np absent full have "ps = xs" unfolding new_peers_def by simp
        with d l g show ?thesis by auto
      qed
    qed
  qed
qed

lemma all_peer_ids_update:
  assumes i: "i < length (buckets t)"
    and sub: "set (map peer_id ps) \<subseteq> S \<union> set (map peer_id (peers (buckets t ! i)))"
  shows "set (all_peer_ids (t\<lparr> buckets := (buckets t)[i := \<lparr> peers = ps, lastUpdated = u \<rparr>] \<rparr>))
           \<subseteq> S \<union> set (all_peer_ids t)"
proof -
  let ?F = "\<lambda>b. map peer_id (peers b)"
  let ?b = "\<lparr> peers = ps, lastUpdated = u \<rparr>"
  have a: "set (concat (map ?F ((buckets t)[i := ?b]))) \<subseteq>
           set (?F ?b) \<union> set (concat (map ?F (buckets t)))"
    by (rule set_ids_update)
  have b: "set (?F (buckets t ! i)) \<subseteq> set (concat (map ?F (buckets t)))"
    by (rule set_ids_nth[OF i])
  have c: "set (?F ?b) \<subseteq> S \<union> set (?F (buckets t ! i))"
    using sub by simp
  from a b c have "set (concat (map ?F ((buckets t)[i := ?b]))) \<subseteq>
                   S \<union> set (concat (map ?F (buckets t)))"
    by blast
  then show ?thesis by (simp add: all_peer_ids_def)
qed

lemma distinct_remove_nth:
  "distinct (map f xs) \<Longrightarrow> distinct (map f (take i xs @ drop (Suc i) xs))"
proof (induction xs arbitrary: i)
  case Nil
  show ?case by simp
next
  case (Cons x xs)
  show ?case
  proof (cases i)
    case 0
    with Cons.prems show ?thesis by simp
  next
    case (Suc j)
    have "set (take j xs @ drop (Suc j) xs) \<subseteq> set xs"
      using set_take_subset[of j xs] set_drop_subset[of "Suc j" xs] by auto
    with Cons.prems Cons.IH[of j] Suc show ?thesis by auto
  qed
qed

lemma addPeer_inv:
  assumes inv: "table_inv t"
  shows "\<exists>t'. addPeer clk p t = Inr t' \<and> table_inv t' \<and> nodeId t' = nodeId t \<and>
              kSize t' = kSize t \<and> numberOfBuckets t' = numberOfBuckets t \<and>
              set (all_peer_ids t') \<subseteq> {peer_id p} \<union> set (all_peer_ids t)"
proof -
  let ?idx = "getBucketIndex (nodeId t) (numberOfBuckets t) (peer_id p)"
  let ?b = "buckets t ! nat ?idx"
  let ?G = "\<lambda>x. getBucketIndex (nodeId t) (numberOfBuckets t) x = int (nat ?idx)"
  note ba = table_inv_bucket_at[OF inv, of "peer_id p"]
  have nn: "0 \<le> ?idx" by (rule ba[THEN conjunct1])
  have lt: "nat ?idx < length (buckets t)" by (rule ba[THEN conjunct2, THEN conjunct1])
  have at: "bucket_at t ?idx = Some ?b" by (rule ba[THEN conjunct2, THEN conjunct2])
  from addPeer_result[OF at, of clk] obtain ps where
    rn: "addPeer clk p t =
            Inr (t\<lparr> buckets := (buckets t)[nat ?idx := \<lparr> peers = ps, lastUpdated = now_updated clk \<rparr>] \<rparr>) \<and>
         new_peers (kSize t) clk p (peers ?b) ps" ..
  note res = rn[THEN conjunct1] and np = rn[THEN conjunct2]
  have ok: "bucket_ok t (nat ?idx)" by (rule table_inv_nth[OF inv lt])
  note ok' = ok[unfolded bucket_ok_def list_all_iff]
  have d: "distinct (map peer_id (peers ?b))"
    by (rule ok'[THEN conjunct1])
  have l: "int (length (peers ?b)) \<le> max 0 (kSize t)"
    by (rule ok'[THEN conjunct2, THEN conjunct1])
  have g: "\<forall>q\<in>set (peers ?b). ?G (peer_id q)"
    by (rule ok'[THEN conjunct2, THEN conjunct2])
  have gp: "?G (peer_id p)" using nn by (simp only: int_nat_eq if_True)
  note r = new_peers_inv[where G = "?G", OF np d l g gp]
  have d': "distinct (map peer_id ps)" by (rule r[THEN conjunct1])
  have l': "int (length ps) \<le> max 0 (kSize t)" by (rule r[THEN conjunct2, THEN conjunct1])
  have g': "\<forall>q\<in>set ps. ?G (peer_id q)"
    by (rule r[THEN conjunct2, THEN conjunct2, THEN conjunct1])
  have "set (map peer_id ps) \<subseteq> insert (peer_id p) (set (map peer_id (peers ?b)))"
    by (rule r[THEN conjunct2, THEN conjunct2, THEN conjunct2])
  then have sub: "set (map peer_id ps) \<subseteq> {peer_id p} \<union> set (map peer_id (peers ?b))"
    by (simp only: insert_is_Un[symmetric])
  let ?t' = "t\<lparr> buckets := (buckets t)[nat ?idx := \<lparr> peers = ps, lastUpdated = now_updated clk \<rparr>] \<rparr>"
  have inv': "table_inv ?t'" by (rule table_inv_update[OF inv lt d' l' g'])
  have ids: "set (all_peer_ids ?t') \<subseteq> {peer_id p} \<union> set (all_peer_ids t)"
    by (rule all_peer_ids_update[OF lt sub])
  have fin: "addPeer clk p t = Inr ?t' \<and> table_inv ?t' \<and> nodeId ?t' = nodeId t \<and>
        kSize ?t' = kSize t \<and> numberOfBuckets ?t' = numberOfBuckets t \<and>
        set (all_peer_ids ?t') \<subseteq> {peer_id p} \<union> set (all_peer_ids t)"
    by (intro conjI res inv' ids) simp_all
  show ?thesis by (rule exI[where x = "?t'"]) (rule fin)
qed

lemma removePeer_inv:
  assumes inv: "table_inv t"
  shows "\<exists>t'. removePeer now pid t = Inr t' \<and> table_inv t' \<and> nodeId t' = nodeId t \<and>
              kSize t' = kSize t \<and> numberOfBuckets t' = numberOfBuckets t \<and>
              set (all_peer_ids t') \<subseteq> set (all_peer_ids t)"
proof -
  let ?idx = "getBucketIndex (nodeId t) (numberOfBuckets t) pid"
  let ?b = "buckets t ! nat ?idx"
  let ?G = "\<lambda>x. getBucketIndex (nodeId t) (numberOfBuckets t) x = int (nat ?idx)"
  note ba = table_inv_bucket_at[OF inv, of pid]
  have lt: "nat ?idx < length (buckets t)" by (rule ba[THEN conjunct2, THEN conjunct1])
  have at: "bucket_at t ?idx = Some ?b" by (rule ba[THEN conjunct2, THEN conjunct2])
  show ?thesis
  proof (cases "findIndex (\<lambda>p. peer_id p = pid) (peers ?b)")
    case None
    have "removePeer now pid t = Inr t"
      by (simp add: removePeer_def Let_def at None)
    then have fin: "removePeer now pid t = Inr t \<and> table_inv t \<and> nodeId t = nodeId t \<and>
        kSize t = kSize t \<and> numberOfBuckets t = numberOfBuckets t \<and>
        set (all_peer_ids t) \<subseteq> set (all_peer_ids t)"
      using inv by simp
    show ?thesis by (rule exI[where x = t]) (rule fin)
  next
    case (Some i)
    let ?ps = "take i (peers ?b) @ drop (Suc i) (peers ?b)"
    let ?t' = "t\<lparr> buckets := (buckets t)[nat ?idx := \<lparr> peers = ?ps, lastUpdated = now \<rparr>] \<rparr>"
    have res: "removePeer now pid t = Inr ?t'"
      by (simp add: removePeer_def Let_def at Some)
    have ok: "bucket_ok t (nat ?idx)" by (rule table_inv_nth[OF inv lt])
    note ok' = ok[unfolded bucket_ok_def list_all_iff]
    have d: "distinct (map peer_id (peers ?b))"
      by (rule ok'[THEN conjunct1])
    have l: "int (length (peers ?b)) \<le> max 0 (kSize t)"
      by (rule ok'[THEN conjunct2, THEN conjunct1])
    have g: "\<forall>q\<in>set (peers ?b). ?G (peer_id q)"
      by (rule ok'[THEN conjunct2, THEN conjunct2])
    have sub: "set ?ps \<subseteq> set (peers ?b)"
      using set_take_subset[of i "peers ?b"] set_drop_subset[of "Suc i" "peers ?b"] by auto
    have d': "distinct (map peer_id ?ps)" by (rule distinct_remove_nth[OF d])
    have "length ?ps \<le> length (peers ?b)" by simp
    then have "int (length ?ps) \<le> int (length (peers ?b))" by (simp only: of_nat_le_iff)
    then have l': "int (length ?ps) \<le> max 0 (kSize t)" using l by (rule order_trans)
    have g': "\<forall>q\<in>set ?ps. ?G (peer_id q)"
    proof
      fix q assume "q \<in> set ?ps"
      with sub have "q \<in> set (peers ?b)" by (rule subsetD)
      with g show "?G (peer_id q)" by (rule bspec)
    qed
    have inv': "table_inv ?t'" by (rule table_inv_update[OF inv lt d' l' g'])
    have "peer_id ` set ?ps \<subseteq> peer_id ` set (peers ?b)"
      using sub by (rule image_mono)
    then have "set (map peer_id ?ps) \<subseteq> {} \<union> set (map peer_id (peers ?b))"
      by (simp only: set_map Un_empty_left)
    then have "set (all_peer_ids ?t') \<subseteq> {} \<union> set (all_peer_ids t)"
      by (rule all_peer_ids_update[OF lt])
    then have ids: "set (all_peer_ids ?t') \<subseteq> set (all_peer_ids t)"
      by (simp only: Un_empty_left)
    have fin: "removePeer now pid t = Inr ?t' \<and> table_inv ?t' \<and> nodeId ?t' = nodeId t \<and>
        kSize ?t' = kSize t \<and> numberOfBuckets ?t' = numberOfBuckets t \<and>
        set (all_peer_ids ?t') \<subseteq> set (all_peer_ids t)"
      by (intro conjI res inv' ids) simp_all
    show ?thesis by (rule exI[where x = "?t'"]) (rule fin)
  qed
qed

lemma new_KBucket_inv: "256 \<le> n \<Longrightarrow> table_inv (new_KBucket nid k n clock)"
  by (simp add: table_inv_def new_KBucket_def bucket_ok_def list_all_iff)

lemma all_peer_ids_new [simp]: "all_peer_ids (new_KBucket nid k n clock) = []"
  by (simp add: all_peer_ids_def new_KBucket_def)

lemma run_ops_inv:
  "table_inv t \<Longrightarrow>
   \<exists>t'. run_ops ops t = Inr t' \<and> table_inv t' \<and> nodeId t' = nodeId t \<and>
        kSize t' = kSize t \<and> numberOfBuckets t' = numberOfBuckets t \<and>
        set (all_peer_ids t') \<subseteq> set (added_ids ops) \<union> set (all_peer_ids t)"
proof (induction ops arbitrary: t)
  case Nil
  then show ?case by simp
next
  case (Cons x xs)
  show ?case
  proof (cases x)
    case (AddPeer clk p)
    from addPeer_inv[OF Cons.prems, of clk p] obtain t1 where
      s: "addPeer clk p t = Inr t1" and i: "table_inv t1" and c: "nodeId t1 = nodeId t"
      "kSize t1 = kSize t" "numberOfBuckets t1 = numberOfBuckets t"
      and ids: "set (all_peer_ids t1) \<subseteq> {peer_id p} \<union> set (all_peer_ids t)"
      by blast
    from Cons.IH[OF i] obtain t2 where
      r: "run_ops xs t1 = Inr t2" and i2: "table_inv t2" and c2: "nodeId t2 = nodeId t1"
      "kSize t2 = kSize t1" "numberOfBuckets t2 = numberOfBuckets t1"
      and ids2: "set (all_peer_ids t2) \<subseteq> set (added_ids xs) \<union> set (all_peer_ids t1)"
      by blast
    have "set (all_peer_ids t2) \<subseteq> set (added_ids (x # xs)) \<union> set (all_peer_ids t)"
      using ids ids2 AddPeer by auto
    moreover have "run_ops (x # xs) t = Inr t2" using s r AddPeer by simp
    ultimately show ?thesis using i2 c c2 by simp
  next
    case (RemovePeer now pid)
    from removePeer_inv[OF Cons.prems, of now pid] obtain t1 where
      s: "removePeer now pid t = Inr t1" and i: "table_inv t1" and c: "nodeId t1 = nodeId t"
      "kSize t1 = kSize t" "numberOfBuckets t1 = numberOfBuckets t"
      and ids: "set (all_peer_ids t1) \<subseteq> set (all_peer_ids t)"
      by blast
    from Cons.IH[OF i] obtain t2 where
      r: "run_ops xs t1 = Inr t2" and i2: "table_inv t2" and c2: "nodeId t2 = nodeId t1"
      "kSize t2 = kSize t1" "numberOfBuckets t2 = numberOfBuckets t1"
      and ids2: "set (all_peer_ids t2) \<subseteq> set (added_ids xs) \<union> set (all_peer_ids t1)"
      by blast
    have "set (all_peer_ids t2) \<subseteq> set (added_ids (x # xs)) \<union> set (all_peer_ids t)"
      using ids ids2 RemovePeer by auto
    moreover have "run_ops (x # xs) t = Inr t2" using s r RemovePeer by simp
    ultimately show ?thesis using i2 c c2 by simp
  qed
qed

lemma distinct_concat_indexed:
  assumes "\<forall>j<length bs. distinct (map h (bs ! j)) \<and> (\<forall>x\<in>set (bs ! j). g (h x) = int (off + j))"
  shows "distinct (concat (map (map h) bs))"
  using assms
proof (induction bs arbitrary: off)
  case Nil
  show ?case by simp
next
  case (Cons b bs)
  have hd: "distinct (map h b)" and hg: "\<forall>x\<in>set b. g (h x) = int off"
    using Cons.prems[rule_format, of 0] by simp_all
  have tl: "\<forall>j<length bs. distinct (map h (bs ! j)) \<and>
              (\<forall>x\<in>set (bs ! j). g (h x) = int (Suc off + j))"
  proof (intro allI impI)
    fix j assume "j < length bs"
    then have "Suc j < length (b # bs)" by simp
    from Cons.prems[rule_format, OF this] show
      "distinct (map h (bs ! j)) \<and> (\<forall>x\<in>set (bs ! j). g (h x) = int (Suc off + j))"
      by simp
  qed
  have rest: "distinct (concat (map (map h) bs))" by (rule Cons.IH[OF tl])
  have disj: "set (map h b) \<inter> set (concat (map (map h) bs)) = {}"
  proof (rule ccontr)
    assume "set (map h b) \<inter> set (concat (map (map h) bs)) \<noteq> {}"
    then obtain y where y1: "y \<in> set (map h b)" and y2: "y \<in> set (concat (map (map h) bs))"
      by blast
    from y1 hg have g1: "g y = int off" by auto
    from y2 obtain c where c: "c \<in> set bs" "y \<in> set (map h c)" by auto
    from c(1) obtain j where j: "j < length bs" "bs ! j = c" by (auto simp: in_set_conv_nth)
    from tl[rule_format, OF j(1)] c(2) j(2) have "g y = int (Suc off + j)" by auto
    with g1 show False by simp
  qed
  from hd rest disj show ?case by simp
qed

lemma table_inv_distinct:
  assumes "table_inv t"
  shows "distinct (all_peer_ids t)"
proof -
  let ?bs = "map peers (buckets t)"
  have "\<forall>j<length ?bs. distinct (map peer_id (?bs ! j)) \<and>
          (\<forall>x\<in>set (?bs ! j).
              getBucketIndex (nodeId t) (numberOfBuckets t) (peer_id x) = int (0 + j))"
  proof (intro allI impI)
    fix j assume "j < length ?bs"
    then have j: "j < length (buckets t)" by simp
    note ok = table_inv_nth[OF assms j, unfolded bucket_ok_def list_all_iff]
    from ok[THEN conjunct1] ok[THEN conjunct2, THEN conjunct2] j
    show "distinct (map peer_id (?bs ! j)) \<and>
          (\<forall>x\<in>set (?bs ! j).
              getBucketIndex (nodeId t) (numberOfBuckets t) (peer_id x) = int (0 + j))"
      by simp
  qed
  then have "distinct (concat (map (map peer_id) ?bs))"
    by (rule distinct_concat_indexed[where g = "getBucketIndex (nodeId t) (numberOfBuckets t)"])
  then show ?thesis by (simp add: all_peer_ids_def comp_def)
qed

lemma table_inv_bounds:
  assumes "table_inv t" and "b \<in> set (buckets t)"
  shows "int (length (peers b)) \<le> max 0 (kSize t)"
proof -
  from assms(2) obtain j where j: "j < length (buckets t)" "buckets t ! j = b"
    by (auto simp: in_set_conv_nth)
  note ok = table_inv_nth[OF assms(1) j(1), unfolded bucket_ok_def]
  from ok[THEN conjunct2, THEN conjunct1] j(2) show ?thesis by simp
qed

lemma table_inv_placement:
  assumes "table_inv t" and "i < length (buckets t)" and "q \<in> set (peers (buckets t ! i))"
  shows "getBucketIndex (nodeId t) (numberOfBuckets t) (peer_id q) = int i"
proof -
  note ok = table_inv_nth[OF assms(1,2), unfolded bucket_ok_def list_all_iff]
  from ok[THEN conjunct2, THEN conjunct2] assms(3) show ?thesis by (rule bspec)
qed

text \<open>
  C5, as the code has it. After any sequence of \<open>addPeer\<close> and \<open>removePeer\<close> calls on a
  new routing table of at least 256 buckets, no call has thrown, no peer id occurs twice in
  the table, every peer sits in the bucket at its bucket index, every bucket holds at most
  \<open>k\<close> peers, and every id in the table was passed to \<open>addPeer\<close>; so the node's own id is
  in no bucket unless \<open>addPeer\<close> was called with it.
\<close>

theorem routing_table_invariants:
  assumes "256 \<le> n"
  shows "\<exists>t. run_ops ops (new_KBucket nid k n clock) = Inr t \<and>
     distinct (all_peer_ids t) \<and>
     (\<forall>i<length (buckets t). \<forall>q\<in>set (peers (buckets t ! i)).
         getBucketIndex nid n (peer_id q) = int i) \<and>
     (\<forall>b\<in>set (buckets t). int (length (peers b)) \<le> max 0 k) \<and>
     set (all_peer_ids t) \<subseteq> set (added_ids ops) \<and>
     (nid \<notin> set (added_ids ops) \<longrightarrow> nid \<notin> set (all_peer_ids t))"
proof -
  let ?t0 = "new_KBucket nid k n clock"
  have inv0: "table_inv ?t0" by (rule new_KBucket_inv[OF assms])
  from run_ops_inv[OF inv0, of ops] obtain t where
    r: "run_ops ops ?t0 = Inr t" and inv: "table_inv t" and c: "nodeId t = nodeId ?t0"
    "kSize t = kSize ?t0" "numberOfBuckets t = numberOfBuckets ?t0"
    and ids: "set (all_peer_ids t) \<subseteq> set (added_ids ops) \<union> set (all_peer_ids ?t0)"
    by blast
  have c': "nodeId t = nid" "kSize t = k" "numberOfBuckets t = n"
    using c by (simp_all add: new_KBucket_def)
  have d: "distinct (all_peer_ids t)" by (rule table_inv_distinct[OF inv])
  have p: "\<forall>i<length (buckets t). \<forall>q\<in>set (peers (buckets t ! i)).
         getBucketIndex nid n (peer_id q) = int i"
    using table_inv_placement[OF inv] by (simp add: c')
  have b: "\<forall>b\<in>set (buckets t). int (length (peers b)) \<le> max 0 k"
    using table_inv_bounds[OF inv] by (simp add: c')
  have s: "set (all_peer_ids t) \<subseteq> set (added_ids ops)"
    using ids by simp
  then have self: "nid \<notin> set (added_ids ops) \<longrightarrow> nid \<notin> set (all_peer_ids t)"
    by blast
  have fin: "run_ops ops ?t0 = Inr t \<and> distinct (all_peer_ids t) \<and>
     (\<forall>i<length (buckets t). \<forall>q\<in>set (peers (buckets t ! i)).
         getBucketIndex nid n (peer_id q) = int i) \<and>
     (\<forall>b\<in>set (buckets t). int (length (peers b)) \<le> max 0 k) \<and>
     set (all_peer_ids t) \<subseteq> set (added_ids ops) \<and>
     (nid \<notin> set (added_ids ops) \<longrightarrow> nid \<notin> set (all_peer_ids t))"
    by (intro conjI r d p b s self)
  show ?thesis by (rule exI[where x = t]) (rule fin)
qed

theorem routing_table_invariants_witness:
  "(256::nat) \<le> 256 \<and>
   key_zero \<notin> set (added_ids [AddPeer (tick 1) (sample_peer key_two 0), RemovePeer 2 key_two,
                                AddPeer (tick 3) (sample_peer key_one 0)]) \<and>
   (\<exists>t. run_ops [AddPeer (tick 1) (sample_peer key_two 0), RemovePeer 2 key_two,
                  AddPeer (tick 3) (sample_peer key_one 0)]
           (new_KBucket key_zero 20 256 (\<lambda>i. 0)) = Inr t \<and>
        distinct (all_peer_ids t) \<and> key_zero \<notin> set (all_peer_ids t))"
proof -
  let ?ops = "[AddPeer (tick 1) (sample_peer key_two 0), RemovePeer 2 key_two,
               AddPeer (tick 3) (sample_peer key_one 0)]"
  have n: "(256::nat) \<le> 256" by simp
  have a: "key_zero \<notin> set (added_ids ?ops)" by code_simp
  from routing_table_invariants[OF n, of ?ops key_zero 20 "\<lambda>i. 0"] obtain t where
    "run_ops ?ops (new_KBucket key_zero 20 256 (\<lambda>i. 0)) = Inr t"
    "distinct (all_peer_ids t)"
    "key_zero \<notin> set (added_ids ?ops) \<longrightarrow> key_zero \<notin> set (all_peer_ids t)"
    by blast
  with a n show ?thesis by blast
qed

text \<open>
  C5, as it is stated, fails: \<open>addPeer\<close> does not compare the id with the node's own.
  Called with the node's own id, it stores the peer in the last bucket.
\<close>

theorem own_id_inserted_counterexample:
  "map_sum id (\<lambda>t. (all_peer_ids t, map peer_id (peers (buckets t ! 255))))
     (run_ops [AddPeer (tick 1) (sample_peer key_zero 0)]
        (new_KBucket key_zero 20 256 (\<lambda>i. 0))) =
   Inr ([key_zero], [key_zero])"
  by code_simp

section \<open>Storage manager: properties\<close>

lemma emitted_emit [simp]: "emitted (emit e m) = emitted m @ [e]"
  by (simp add: emit_def)

lemma world_emit [simp]: "world (emit e m) = world m"
  by (simp add: emit_def)

lemma providers_emit [simp]: "providers (emit e m) = providers m"
  by (simp add: emit_def)

lemma cfg_emit [simp]: "cfg_replicationFactor (emit e m) = cfg_replicationFactor m"
  by (simp add: emit_def)






lemma tryPreferred_None [simp]: "tryPreferred None ident m = (None, m)"
  by (simp add: tryPreferred_def)









subsection \<open>The steps of a replication\<close>

lemma map_filter_append:
  "List.map_filter f (xs @ ys) = List.map_filter f xs @ List.map_filter f ys"
  by (simp add: List.map_filter_def)

lemma find_metadata_unsettled [simp]: "find_metadata ps \<noteq> Settled"
  by (simp add: find_metadata_def split: list.splits)

lemma try_providers_unsettled [simp]: "try_providers md ps le \<noteq> Settled"
  by (simp add: try_providers_def split: list.splits)

lemma with_metadata_unsettled [simp]: "with_metadata m md \<noteq> Settled"
  by (simp add: with_metadata_def)

lemma start_unsettled [simp]: "task_state (replicateToProvider md prov m) \<noteq> Settled"
  by (simp add: replicateToProvider_def split: option.splits)

lemma start_provider [simp]: "task_provider (replicateToProvider md prov m) = prov"
  by (simp add: replicateToProvider_def)

lemma steps_left_0: "steps_left n s = 0 \<longleftrightarrow> s = Settled"
  by (cases s) simp_all

lemma steps_left_find_metadata:
  "steps_left n (find_metadata rest) \<le> 2 * length rest + 4 * n + 3"
  by (simp add: find_metadata_def split: list.splits)

lemma steps_left_try_providers:
  "steps_left n (try_providers md rest le) \<le> 4 * length rest + 2"
  by (simp add: try_providers_def split: list.splits)

lemma steps_left_with_metadata:
  "steps_left n (with_metadata m md) \<le> 4 * length (providers m) + 2"
proof -
  have "length (getProvidersForMetadata m md) \<le> length (providers m)"
    by (simp add: getProvidersForMetadata_def)
  moreover have "steps_left n (try_providers md (getProvidersForMetadata m md) None)
                   \<le> 4 * length (getProvidersForMetadata m md) + 2"
    by (rule steps_left_try_providers)
  ultimately show ?thesis by (simp add: with_metadata_def)
qed

lemma steps_left_start:
  "steps_left (length (providers m)) (task_state (replicateToProvider md prov m))
     \<le> 6 * length (providers m) + 4"
proof (cases "metadataCache m (md_id md)")
  case None
  then show ?thesis
    using steps_left_find_metadata[of "length (providers m)" "providers m"]
    by (simp add: replicateToProvider_def)
next
  case (Some cached)
  then show ?thesis
    using steps_left_with_metadata[of "length (providers m)" m cached]
    by (simp add: replicateToProvider_def)
qed

text \<open>A step keeps the providers of the manager, and a task that has returned is at rest.\<close>

lemma task_step_providers:
  "task_step md opts prov s m = (s', m') \<Longrightarrow> providers m' = providers m"
  by (cases s) (auto split: prod.splits sum.splits option.splits bool.splits)

lemma task_step_Settled:
  "task_step md opts prov Settled m = (s', m') \<Longrightarrow> s' = Settled \<and> m' = m"
  by simp

text \<open>
  A step appends to the events, and the one event of replication of a task comes with
  the step in which it returns.
\<close>

lemma task_step_events:
  assumes "task_step md opts prov s m = (s', m')"
  shows "\<exists>new. emitted m' = emitted m @ new \<and>
           List.map_filter replication_of new =
             (if s \<noteq> Settled \<and> s' = Settled then [(md_id md, fst prov)] else [])"
proof (cases s)
  case (AwaitGetMetadata p rest)
  with assms have "emitted m' = emitted m @ [] \<and> s' \<noteq> Settled"
    by (auto split: prod.splits)
  then show ?thesis by (intro exI[where x = "[]"]) simp
next
  case (GotMetadata rest r)
  with assms have "emitted m' = emitted m @ [] \<and> s' \<noteq> Settled"
    by (auto split: sum.splits option.splits)
  then show ?thesis by (intro exI[where x = "[]"]) simp
next
  case (AwaitRetrieve found p rest)
  with assms have "emitted m' = emitted m @ [] \<and> s' \<noteq> Settled"
    by (auto split: prod.splits)
  then show ?thesis by (intro exI[where x = "[]"]) simp
next
  case (GotData found p rest r)
  with assms have "emitted m' = emitted m @ [] \<and> s' \<noteq> Settled"
    by (auto split: sum.splits)
  then show ?thesis by (intro exI[where x = "[]"]) simp
next
  case (AwaitValidate found p rest data)
  with assms have "emitted m' = emitted m @ [] \<and> s' \<noteq> Settled"
    by (auto split: prod.splits)
  then show ?thesis by (intro exI[where x = "[]"]) simp
next
  case (GotValid found p rest data r)
  show ?thesis
  proof (cases "r = Inr True")
    case True
    with GotValid assms have
      "emitted m' = emitted m @ [Retrieved (md_id md) (md_size found) (fst p)] \<and> s' \<noteq> Settled"
      by auto
    then show ?thesis
      by (intro exI[where x = "[Retrieved (md_id md) (md_size found) (fst p)]"]) simp
  next
    case False
    with GotValid assms have "emitted m' = emitted m @ [] \<and> s' \<noteq> Settled"
      by (auto split: sum.splits bool.splits)
    then show ?thesis by (intro exI[where x = "[]"]) simp
  qed
next
  case (AwaitStore data)
  with assms have "emitted m' = emitted m @ [] \<and> s' \<noteq> Settled"
    by (auto split: prod.splits sum.splits)
  then show ?thesis by (intro exI[where x = "[]"]) simp
next
  case StoreDone
  with assms have "emitted m' = emitted m @ [Replicated (md_id md) (fst prov)] \<and> s' = Settled"
    by auto
  then show ?thesis using StoreDone
    by (intro exI[where x = "[Replicated (md_id md) (fst prov)]"]) simp
next
  case (Caught e)
  with assms have
    "emitted m' = emitted m @ [ReplicationFailed (md_id md) (fst prov) e] \<and> s' = Settled"
    by auto
  then show ?thesis using Caught
    by (intro exI[where x = "[ReplicationFailed (md_id md) (fst prov) e]"]) simp
next
  case Settled
  with assms have "emitted m' = emitted m @ [] \<and> s' = Settled" by auto
  then show ?thesis using Settled by (intro exI[where x = "[]"]) simp
qed

text \<open>Every step of a task that has not returned brings it nearer to its end.\<close>

lemma task_step_measure:
  assumes "task_step md opts prov s m = (s', m')" and "s \<noteq> Settled"
  shows "steps_left (length (providers m)) s' < steps_left (length (providers m)) s"
proof (cases s)
  case (AwaitGetMetadata p rest)
  with assms show ?thesis by (auto split: prod.splits)
next
  case (GotMetadata rest r)
  let ?n = "length (providers m)"
  have a: "steps_left ?n (find_metadata rest) < 2 * length rest + 4 * ?n + 4"
    using steps_left_find_metadata[of ?n rest] by simp
  have b: "steps_left ?n (with_metadata m found) < 2 * length rest + 4 * ?n + 4" for found
    using steps_left_with_metadata[of ?n m found] by simp
  from GotMetadata assms a b show ?thesis
    by (auto split: sum.splits option.splits)
next
  case (AwaitRetrieve found p rest)
  with assms show ?thesis by (auto split: prod.splits)
next
  case (GotData found p rest r)
  have a: "steps_left (length (providers m)) (try_providers found rest le) < 4 * length rest + 5"
    for le
    using steps_left_try_providers[of "length (providers m)" found rest le] by simp
  from GotData assms a show ?thesis by (auto split: sum.splits)
next
  case (AwaitValidate found p rest data)
  with assms show ?thesis by (auto split: prod.splits)
next
  case (GotValid found p rest data r)
  have a: "steps_left (length (providers m)) (try_providers found rest le) < 4 * length rest + 3"
    for le
    using steps_left_try_providers[of "length (providers m)" found rest le] by simp
  from GotValid assms a show ?thesis by (auto split: sum.splits bool.splits)
next
  case (AwaitStore data)
  with assms show ?thesis by (auto split: prod.splits sum.splits)
next
  case StoreDone
  with assms show ?thesis by auto
next
  case (Caught e)
  with assms show ?thesis by auto
next
  case Settled
  with assms show ?thesis by simp
qed

lemma task_step_bound:
  assumes "task_step md opts prov s m = (s', m')"
  shows "steps_left (length (providers m)) s' \<le> steps_left (length (providers m)) s"
proof (cases "s = Settled")
  case True
  with assms show ?thesis by simp
next
  case False
  from task_step_measure[OF assms False] show ?thesis by simp
qed

subsection \<open>Tasks that run together\<close>

lemma owed_Nil [simp]: "owed ident [] = {#}"
  by (simp add: owed_def)

lemma owed_Cons:
  "owed ident (t # ts) =
     (if task_state t \<noteq> Settled then {#(ident, fst (task_provider t))#} else {#}) + owed ident ts"
  by (simp add: owed_def)

lemma owed_started:
  "owed ident (map (\<lambda>provider. replicateToProvider md provider m) targets) =
     mset (map (\<lambda>provider. (ident, fst provider)) targets)"
  by (induction targets) (simp_all add: owed_Cons)

lemma owed_settled:
  "\<forall>t\<in>set ts. task_state t = Settled \<Longrightarrow> owed ident ts = {#}"
  by (induction ts) (simp_all add: owed_Cons)

lemma owed_update:
  assumes "i < length tasks"
  shows "owed ident (tasks[i := (tasks ! i)\<lparr>task_state := s\<rparr>]) +
           (if task_state (tasks ! i) \<noteq> Settled then {#(ident, fst (task_provider (tasks ! i)))#}
            else {#}) =
         owed ident tasks +
           (if s \<noteq> Settled then {#(ident, fst (task_provider (tasks ! i)))#} else {#})"
  using assms
proof (induction tasks arbitrary: i)
  case Nil
  then show ?case by simp
next
  case (Cons t ts)
  show ?case
  proof (cases i)
    case 0
    then show ?thesis by (simp add: owed_Cons)
  next
    case (Suc j)
    with Cons.prems have j: "j < length ts" by simp
    define v where "v = (ts ! j)\<lparr>task_state := s\<rparr>"
    define x where "x = (if task_state (ts ! j) \<noteq> Settled
                         then {#(ident, fst (task_provider (ts ! j)))#} else {#})"
    define y where "y = (if s \<noteq> Settled
                         then {#(ident, fst (task_provider (ts ! j)))#} else {#})"
    define c where "c = (if task_state t \<noteq> Settled
                         then {#(ident, fst (task_provider t))#} else {#})"
    have ih: "owed ident (ts[j := v]) + x = owed ident ts + y"
      using Cons.IH[OF j] unfolding v_def x_def y_def .
    have "owed ident (t # ts[j := v]) + x = c + (owed ident (ts[j := v]) + x)"
      unfolding c_def by (simp add: owed_Cons)
    also have "\<dots> = c + (owed ident ts + y)" by (simp only: ih)
    also have "\<dots> = owed ident (t # ts) + y"
      unfolding c_def by (simp add: owed_Cons)
    finally have fin: "owed ident (t # ts[j := v]) + x = owed ident (t # ts) + y" .
    have g1: "(t # ts)[i := (ts ! j)\<lparr>task_state := s\<rparr>] = t # ts[j := v]"
      using Suc by (simp add: v_def)
    have g2: "(t # ts) ! i = ts ! j" using Suc by simp
    show ?thesis unfolding g2 g1 using fin unfolding x_def y_def .
  qed
qed

lemma step_task_out:
  "\<not> i < length tasks \<Longrightarrow> step_task md opts i (tasks, m) = (tasks, m)"
  by (simp add: step_task_def)

lemma step_task_in:
  assumes "i < length tasks"
    and "task_step md opts (task_provider (tasks ! i)) (task_state (tasks ! i)) m = (s, m')"
  shows "step_task md opts i (tasks, m) = (tasks[i := (tasks ! i)\<lparr>task_state := s\<rparr>], m')"
  using assms by (simp add: step_task_def)

text \<open>
  What one step of the tasks keeps: the tasks and their providers, the providers of the
  manager, the events emitted before, the tasks that have returned, and the account of
  the events of replication, emitted or still owed.
\<close>

lemma step_task_facts:
  assumes "step_task md opts i (tasks, m) = (tasks', m')"
  shows "length tasks' = length tasks \<and>
         map task_provider tasks' = map task_provider tasks \<and>
         providers m' = providers m \<and>
         (\<exists>new. emitted m' = emitted m @ new \<and>
            mset (List.map_filter replication_of new) + owed (md_id md) tasks' =
              owed (md_id md) tasks) \<and>
         (\<forall>j<length tasks. task_state (tasks ! j) = Settled \<longrightarrow>
              task_state (tasks' ! j) = Settled) \<and>
         (\<forall>j<length tasks. steps_left (length (providers m)) (task_state (tasks' ! j))
              \<le> steps_left (length (providers m)) (task_state (tasks ! j))) \<and>
         (\<forall>j. j \<noteq> i \<longrightarrow> tasks' ! j = tasks ! j)"
proof (cases "i < length tasks")
  case False
  with assms have "tasks' = tasks" "m' = m" by (simp_all add: step_task_out)
  then show ?thesis by simp
next
  case True
  let ?t = "tasks ! i"
  obtain s m1 where ts: "task_step md opts (task_provider ?t) (task_state ?t) m = (s, m1)"
    by (cases "task_step md opts (task_provider ?t) (task_state ?t) m")
  from step_task_in[OF True ts] assms
  have t': "tasks' = tasks[i := ?t\<lparr>task_state := s\<rparr>]" and m': "m' = m1" by simp_all
  have len: "length tasks' = length tasks" by (simp add: t')
  have prov: "map task_provider tasks' = map task_provider tasks"
    unfolding t' by (simp add: map_update list_update_same_conv True)
  have pm: "providers m' = providers m" using task_step_providers[OF ts] m' by simp
  from task_step_events[OF ts] obtain new where
    e: "emitted m1 = emitted m @ new"
    and r: "List.map_filter replication_of new =
              (if task_state ?t \<noteq> Settled \<and> s = Settled
               then [(md_id md, fst (task_provider ?t))] else [])"
    by blast
  have st: "task_state ?t = Settled \<Longrightarrow> s = Settled"
    using task_step_Settled[of md opts "task_provider ?t" m s m1] ts by simp
  have acc: "mset (List.map_filter replication_of new) + owed (md_id md) tasks' =
               owed (md_id md) tasks"
  proof -
    note u = owed_update[OF True, of "md_id md" s]
    show ?thesis
    proof (cases "task_state ?t = Settled")
      case True
      with st have "s = Settled" by simp
      with True u r show ?thesis unfolding t' by simp
    next
      case False
      show ?thesis
      proof (cases "s = Settled")
        case True
        with False u r show ?thesis unfolding t' by simp
      next
        case s: False
        with False u r show ?thesis unfolding t' by simp
      qed
    qed
  qed
  have ev: "\<exists>new. emitted m' = emitted m @ new \<and>
            mset (List.map_filter replication_of new) + owed (md_id md) tasks' =
              owed (md_id md) tasks"
    using e acc m' by (intro exI[where x = new]) simp
  have keep: "\<forall>j<length tasks. task_state (tasks ! j) = Settled \<longrightarrow>
                task_state (tasks' ! j) = Settled"
  proof (intro allI impI)
    fix j assume j: "j < length tasks" and sj: "task_state (tasks ! j) = Settled"
    show "task_state (tasks' ! j) = Settled"
    proof (cases "j = i")
      case True
      with sj st j show ?thesis unfolding t' by simp
    next
      case False
      with sj show ?thesis unfolding t' by simp
    qed
  qed
  have bound: "\<forall>j<length tasks. steps_left (length (providers m)) (task_state (tasks' ! j))
              \<le> steps_left (length (providers m)) (task_state (tasks ! j))"
  proof (intro allI impI)
    fix j assume j: "j < length tasks"
    show "steps_left (length (providers m)) (task_state (tasks' ! j))
              \<le> steps_left (length (providers m)) (task_state (tasks ! j))"
    proof (cases "j = i")
      case True
      with task_step_bound[OF ts] j show ?thesis unfolding t' by simp
    next
      case False
      then show ?thesis unfolding t' by simp
    qed
  qed
  have other: "\<forall>j. j \<noteq> i \<longrightarrow> tasks' ! j = tasks ! j"
    unfolding t' by simp
  from len prov pm ev keep bound other show ?thesis by (intro conjI)
qed

text \<open>The same for any number of steps.\<close>

lemma steps_facts:
  "fold (step_task md opts) steps (tasks, m) = (tasks', m') \<Longrightarrow>
   length tasks' = length tasks \<and>
   map task_provider tasks' = map task_provider tasks \<and>
   providers m' = providers m \<and>
   (\<exists>new. emitted m' = emitted m @ new \<and>
      mset (List.map_filter replication_of new) + owed (md_id md) tasks' =
        owed (md_id md) tasks) \<and>
   (\<forall>j<length tasks. task_state (tasks ! j) = Settled \<longrightarrow>
        task_state (tasks' ! j) = Settled) \<and>
   (\<forall>j<length tasks. steps_left (length (providers m)) (task_state (tasks' ! j))
        \<le> steps_left (length (providers m)) (task_state (tasks ! j)))"
proof (induction steps arbitrary: tasks m)
  case Nil
  then have "tasks' = tasks" "m' = m" by simp_all
  then show ?case by simp
next
  case (Cons i steps)
  obtain tasks1 m1 where s1: "step_task md opts i (tasks, m) = (tasks1, m1)"
    by (cases "step_task md opts i (tasks, m)")
  with Cons.prems have rest: "fold (step_task md opts) steps (tasks1, m1) = (tasks', m')"
    by simp
  note a = step_task_facts[OF s1]
  note b = Cons.IH[OF rest]
  have len1: "length tasks1 = length tasks" using a by blast
  have pm1: "providers m1 = providers m" using a by blast
  from a obtain new1 where
    e1: "emitted m1 = emitted m @ new1"
    and c1: "mset (List.map_filter replication_of new1) + owed (md_id md) tasks1 =
               owed (md_id md) tasks"
    by blast
  from b obtain new2 where
    e2: "emitted m' = emitted m1 @ new2"
    and c2: "mset (List.map_filter replication_of new2) + owed (md_id md) tasks' =
               owed (md_id md) tasks1"
    by blast
  have len: "length tasks' = length tasks" using a b by simp
  have prov: "map task_provider tasks' = map task_provider tasks" using a b by simp
  have pm: "providers m' = providers m" using a b by simp
  have acc: "mset (List.map_filter replication_of (new1 @ new2)) + owed (md_id md) tasks' =
               owed (md_id md) tasks"
    using c1 c2 by (simp add: map_filter_append ac_simps)
  have ev: "\<exists>new. emitted m' = emitted m @ new \<and>
      mset (List.map_filter replication_of new) + owed (md_id md) tasks' =
        owed (md_id md) tasks"
    using e1 e2 acc by (intro exI[where x = "new1 @ new2"]) simp
  have keep: "\<forall>j<length tasks. task_state (tasks ! j) = Settled \<longrightarrow>
        task_state (tasks' ! j) = Settled"
    using a b len1 by simp
  have bound: "\<forall>j<length tasks. steps_left (length (providers m)) (task_state (tasks' ! j))
        \<le> steps_left (length (providers m)) (task_state (tasks ! j))"
  proof (intro allI impI)
    fix j assume j: "j < length tasks"
    have "steps_left (length (providers m)) (task_state (tasks' ! j))
            \<le> steps_left (length (providers m)) (task_state (tasks1 ! j))"
      using b j len1 pm1 by simp
    also have "\<dots> \<le> steps_left (length (providers m)) (task_state (tasks ! j))"
      using a j by blast
    finally show "steps_left (length (providers m)) (task_state (tasks' ! j))
        \<le> steps_left (length (providers m)) (task_state (tasks ! j))" .
  qed
  from len prov pm ev keep bound show ?case by (intro conjI)
qed

text \<open>Given the steps it needs, a task returns.\<close>

lemma block_settles:
  "i < length tasks \<Longrightarrow>
   steps_left (length (providers m)) (task_state (tasks ! i)) \<le> k \<Longrightarrow>
   fold (step_task md opts) (replicate k i) (tasks, m) = (tasks', m') \<Longrightarrow>
   task_state (tasks' ! i) = Settled"
proof (induction k arbitrary: tasks m)
  case 0
  then show ?case by (simp add: steps_left_0)
next
  case (Suc k)
  let ?t = "tasks ! i"
  obtain s m1 where ts: "task_step md opts (task_provider ?t) (task_state ?t) m = (s, m1)"
    by (cases "task_step md opts (task_provider ?t) (task_state ?t) m")
  let ?tasks1 = "tasks[i := ?t\<lparr>task_state := s\<rparr>]"
  have s1: "step_task md opts i (tasks, m) = (?tasks1, m1)"
    by (rule step_task_in[OF Suc.prems(1) ts])
  with Suc.prems(3) have rest: "fold (step_task md opts) (replicate k i) (?tasks1, m1) = (tasks', m')"
    by simp
  have pm: "providers m1 = providers m" by (rule task_step_providers[OF ts])
  have "steps_left (length (providers m)) s \<le> k"
  proof (cases "task_state ?t = Settled")
    case True
    with ts have "s = Settled" by simp
    then show ?thesis by simp
  next
    case False
    from task_step_measure[OF ts False] Suc.prems(2) show ?thesis by simp
  qed
  then have b: "steps_left (length (providers m1)) (task_state (?tasks1 ! i)) \<le> k"
    using Suc.prems(1) pm by simp
  have l: "i < length ?tasks1" using Suc.prems(1) by simp
  from Suc.IH[OF l b rest] show ?case .
qed

lemma settle_all_Suc:
  "settle_all (Suc k) n = settle_all k n @ replicate (6 * n + 4) k"
  by (simp add: settle_all_def)

lemma settle_all_settles:
  "k \<le> length tasks \<Longrightarrow>
   \<forall>j<length tasks. steps_left (length (providers m)) (task_state (tasks ! j))
      \<le> 6 * length (providers m) + 4 \<Longrightarrow>
   fold (step_task md opts) (settle_all k (length (providers m))) (tasks, m) = (tasks', m') \<Longrightarrow>
   \<forall>j<k. task_state (tasks' ! j) = Settled"
proof (induction k arbitrary: tasks' m')
  case 0
  then show ?case by simp
next
  case (Suc k)
  let ?n = "length (providers m)"
  obtain tasks1 m1 where
    f1: "fold (step_task md opts) (settle_all k ?n) (tasks, m) = (tasks1, m1)"
    by (cases "fold (step_task md opts) (settle_all k ?n) (tasks, m)")
  with Suc.prems(3) have
    f2: "fold (step_task md opts) (replicate (6 * ?n + 4) k) (tasks1, m1) = (tasks', m')"
    by (simp add: settle_all_Suc)
  have kl: "k \<le> length tasks" and k: "k < length tasks" using Suc.prems(1) by simp_all
  note ih = Suc.IH[OF kl Suc.prems(2) f1]
  note a = steps_facts[OF f1]
  note b = steps_facts[OF f2]
  have len1: "length tasks1 = length tasks" using a by blast
  have pm1: "providers m1 = providers m" using a by blast
  have "steps_left ?n (task_state (tasks1 ! k)) \<le> steps_left ?n (task_state (tasks ! k))"
    using a k by blast
  also have "\<dots> \<le> 6 * ?n + 4" using Suc.prems(2) k by blast
  finally have bk: "steps_left (length (providers m1)) (task_state (tasks1 ! k)) \<le> 6 * ?n + 4"
    using pm1 by simp
  have k1: "k < length tasks1" using k len1 by simp
  have sk: "task_state (tasks' ! k) = Settled"
    by (rule block_settles[OF k1 bk f2])
  show ?case
  proof (intro allI impI)
    fix j assume j: "j < Suc k"
    show "task_state (tasks' ! j) = Settled"
    proof (cases "j = k")
      case True
      with sk show ?thesis by simp
    next
      case False
      with j have jk: "j < k" by simp
      then have "task_state (tasks1 ! j) = Settled" using ih by blast
      moreover have "j < length tasks1" using jk k1 by simp
      ultimately show ?thesis using b by blast
    qed
  qed
qed

subsection \<open>The run of \<open>handleReplication\<close>\<close>

text \<open>
  A task whose store or \<open>try\<close> block is over emits its event with its next step, and
  once all tasks have returned the event is among those emitted.
\<close>

lemma committed_step:
  assumes "committed (md_id md) t = Some ev"
  shows "task_step md opts (task_provider t) (task_state t) m = (Settled, emit ev m)"
proof (cases "task_state t")
  case StoreDone
  with assms show ?thesis by (simp add: committed_def)
next
  case (Caught e)
  with assms show ?thesis by (simp add: committed_def)
qed (use assms in \<open>simp_all add: committed_def\<close>)

lemma step_task_other:
  assumes "step_task md opts i (tasks, m) = (tasks', m')" and "j \<noteq> i"
  shows "tasks' ! j = tasks ! j"
proof -
  from step_task_facts[OF assms(1)] have "\<forall>j. j \<noteq> i \<longrightarrow> tasks' ! j = tasks ! j"
    by (elim conjE) assumption
  with assms(2) show ?thesis by simp
qed

lemma committed_emitted:
  "i < length tasks \<Longrightarrow> committed (md_id md) (tasks ! i) = Some ev \<Longrightarrow>
   fold (step_task md opts) steps (tasks, m) = (tasks', m') \<Longrightarrow>
   task_state (tasks' ! i) = Settled \<Longrightarrow>
   \<exists>new. emitted m' = emitted m @ new \<and> ev \<in> set new"
proof (induction steps arbitrary: tasks m)
  case Nil
  then have "tasks' = tasks" by simp
  with Nil.prems(2,4) show ?case by (simp add: committed_def)
next
  case (Cons j steps)
  obtain tasks1 m1 where s1: "step_task md opts j (tasks, m) = (tasks1, m1)"
    by (cases "step_task md opts j (tasks, m)")
  with Cons.prems(3) have rest: "fold (step_task md opts) steps (tasks1, m1) = (tasks', m')"
    by simp
  show ?case
  proof (cases "j = i")
    case True
    from step_task_in[OF Cons.prems(1) committed_step[OF Cons.prems(2), of opts m]] s1 True
    have m1: "m1 = emit ev m" by simp
    from steps_facts[OF rest] obtain new2 where e2: "emitted m' = emitted m1 @ new2"
      by blast
    have "emitted m' = emitted m @ ([ev] @ new2) \<and> ev \<in> set ([ev] @ new2)"
      using e2 m1 by simp
    then show ?thesis by (rule exI[where x = "[ev] @ new2"])
  next
    case False
    note a = step_task_facts[OF s1]
    have "i \<noteq> j" using False by simp
    then have same: "tasks1 ! i = tasks ! i" by (rule step_task_other[OF s1])
    have len: "i < length tasks1" using a Cons.prems(1) by simp
    from a obtain new1 where e1: "emitted m1 = emitted m @ new1" by blast
    have c: "committed (md_id md) (tasks1 ! i) = Some ev"
      using Cons.prems(2) same by simp
    from Cons.IH[OF len c rest Cons.prems(4)] obtain new2 where
      e2: "emitted m' = emitted m1 @ new2" and in2: "ev \<in> set new2"
      by blast
    have "emitted m' = emitted m @ (new1 @ new2) \<and> ev \<in> set (new1 @ new2)"
      using e1 e2 in2 by simp
    then show ?thesis by (rule exI[where x = "new1 @ new2"])
  qed
qed

text \<open>At the end of the steps of \<open>handleReplication\<close> every task has returned.\<close>

lemma replication_settled:
  assumes "fold (step_task md opts) (replication_steps sched provs opts m)
             (replication_tasks md provs opts m, m) = (tasks', m')"
  shows "length tasks' = length (slice_to provs (replicationFactor m opts - 1)) \<and>
         (\<forall>j<length tasks'. task_state (tasks' ! j) = Settled)"
proof -
  let ?targets = "slice_to provs (replicationFactor m opts - 1)"
  let ?tasks = "replication_tasks md provs opts m"
  let ?n = "length (providers m)"
  have len0: "length ?tasks = length ?targets" by (simp add: replication_tasks_def)
  obtain tasks1 m1 where f1: "fold (step_task md opts) sched (?tasks, m) = (tasks1, m1)"
    by (cases "fold (step_task md opts) sched (?tasks, m)")
  with assms have
    f2: "fold (step_task md opts) (settle_all (length ?targets) ?n) (tasks1, m1) = (tasks', m')"
    by (simp add: replication_steps_def)
  note a = steps_facts[OF f1]
  note b = steps_facts[OF f2]
  have len1: "length tasks1 = length ?targets" using a len0 by simp
  have pm1: "providers m1 = providers m" using a by blast
  have bound: "\<forall>j<length tasks1. steps_left (length (providers m1)) (task_state (tasks1 ! j))
                  \<le> 6 * length (providers m1) + 4"
  proof (intro allI impI)
    fix j assume j: "j < length tasks1"
    then have j0: "j < length ?tasks" using len1 len0 by simp
    have "steps_left ?n (task_state (tasks1 ! j)) \<le> steps_left ?n (task_state (?tasks ! j))"
      using a j0 by blast
    also have "\<dots> \<le> 6 * ?n + 4"
      using j0 len0 by (simp add: replication_tasks_def steps_left_start)
    finally show "steps_left (length (providers m1)) (task_state (tasks1 ! j))
                  \<le> 6 * length (providers m1) + 4"
      using pm1 by simp
  qed
  have f2': "fold (step_task md opts) (settle_all (length ?targets) (length (providers m1)))
               (tasks1, m1) = (tasks', m')"
    using f2 pm1 by simp
  have k: "length ?targets \<le> length tasks1" using len1 by simp
  from settle_all_settles[OF k bound f2']
  have all: "\<forall>j<length ?targets. task_state (tasks' ! j) = Settled" .
  have len: "length tasks' = length ?targets" using b len1 by simp
  from len all show ?thesis by simp
qed

text \<open>
  The events of \<open>handleReplication\<close>: whatever the schedule is, one event of replication
  for each provider of the slice.
\<close>

lemma handleReplication_events:
  "\<exists>evs. emitted (handleReplication sched md provs opts m) = emitted m @ evs \<and>
         mset (List.map_filter replication_of evs) =
           mset (map (\<lambda>provider. (md_id md, fst provider))
                  (slice_to provs (replicationFactor m opts - 1)))"
proof -
  let ?targets = "slice_to provs (replicationFactor m opts - 1)"
  let ?tasks = "replication_tasks md provs opts m"
  obtain tasks' m' where
    f: "fold (step_task md opts) (replication_steps sched provs opts m) (?tasks, m) = (tasks', m')"
    by (cases "fold (step_task md opts) (replication_steps sched provs opts m) (?tasks, m)")
  have h: "handleReplication sched md provs opts m = m'"
    using f by (simp add: handleReplication_def)
  from replication_settled[OF f] have "\<forall>t\<in>set tasks'. task_state t = Settled"
    by (simp add: all_set_conv_all_nth)
  then have o': "owed (md_id md) tasks' = {#}" by (rule owed_settled)
  have o: "owed (md_id md) ?tasks = mset (map (\<lambda>provider. (md_id md, fst provider)) ?targets)"
    unfolding replication_tasks_def by (rule owed_started)
  from steps_facts[OF f] obtain evs where
    e: "emitted m' = emitted m @ evs"
    and c: "mset (List.map_filter replication_of evs) + owed (md_id md) tasks' =
              owed (md_id md) ?tasks"
    by blast
  have "emitted (handleReplication sched md provs opts m) = emitted m @ evs \<and>
        mset (List.map_filter replication_of evs) =
          mset (map (\<lambda>provider. (md_id md, fst provider)) ?targets)"
    using h e c o o' by simp
  then show ?thesis by (rule exI[where x = evs])
qed

text \<open>
  The event of a task whose store or \<open>try\<close> block is over after \<open>k\<close> steps is among the
  events of \<open>handleReplication\<close>.
\<close>

lemma committed_after:
  assumes ra: "fold (step_task md opts) (take k (replication_steps sched provs opts m))
                 (replication_tasks md provs opts m, m) = (tasks, mk)"
    and rest: "fold (step_task md opts) mid (tasks, mk) = (tasks1, m1)"
    and steps: "replication_steps sched provs opts m =
                  take k (replication_steps sched provs opts m) @ mid @ later"
    and i: "i < length tasks"
    and c: "committed (md_id md) (tasks1 ! i) = Some ev"
  shows "\<exists>evs. emitted (handleReplication sched md provs opts m) = emitted m @ evs \<and>
               ev \<in> set evs"
proof -
  let ?steps = "replication_steps sched provs opts m"
  let ?tasks = "replication_tasks md provs opts m"
  obtain tasks' m' where f: "fold (step_task md opts) later (tasks1, m1) = (tasks', m')"
    by (cases "fold (step_task md opts) later (tasks1, m1)")
  have "fold (step_task md opts) (take k ?steps @ mid @ later) (?tasks, m) = (tasks', m')"
    using ra rest f by simp
  then have all: "fold (step_task md opts) ?steps (?tasks, m) = (tasks', m')"
    using steps by simp
  have h: "handleReplication sched md provs opts m = m'"
    using all by (simp add: handleReplication_def)
  note a = steps_facts[OF ra]
  note b = steps_facts[OF rest]
  note d = steps_facts[OF f]
  have i1: "i < length tasks1" using b i by simp
  have "i < length tasks'" using d i1 by simp
  with replication_settled[OF all] have s: "task_state (tasks' ! i) = Settled" by blast
  from committed_emitted[OF i1 c f s] obtain new where
    e3: "emitted m' = emitted m1 @ new" and inn: "ev \<in> set new"
    by blast
  from a obtain new1 where e1: "emitted mk = emitted m @ new1" by blast
  from b obtain new2 where e2: "emitted m1 = emitted mk @ new2" by blast
  have "emitted (handleReplication sched md provs opts m) = emitted m @ (new1 @ new2 @ new) \<and>
        ev \<in> set (new1 @ new2 @ new)"
    using h e1 e2 e3 inn by simp
  then show ?thesis by (rule exI[where x = "new1 @ new2 @ new"])
qed

lemma steps_at:
  "k < length steps \<Longrightarrow> steps = take k steps @ [steps ! k] @ drop (Suc k) steps"
  by (simp add: id_take_nth_drop[symmetric])

lemma store_settles_emitted:
  assumes "store_settles k sched md provs opts m = Some (name, r)"
  shows "\<exists>evs. emitted (handleReplication sched md provs opts m) = emitted m @ evs \<and>
               (case r of
                  Inl e \<Rightarrow> ReplicationFailed (md_id md) name e
                | Inr stored \<Rightarrow> Replicated (md_id md) name) \<in> set evs"
proof -
  let ?steps = "replication_steps sched provs opts m"
  obtain tasks mk where
    ra: "fold (step_task md opts) (take k ?steps) (replication_tasks md provs opts m, m) =
           (tasks, mk)"
    by (cases "fold (step_task md opts) (take k ?steps) (replication_tasks md provs opts m, m)")
  let ?i = "?steps ! k"
  let ?t = "tasks ! ?i"
  from assms ra have k: "k < length ?steps" and i: "?i < length tasks"
    by (auto simp: store_settles_def replications_after_def Let_def split: if_splits)
  from assms ra k i obtain data where
    st: "task_state ?t = AwaitStore data"
    and nm: "name = fst (task_provider ?t)"
    and r: "r = fst (sp_store (snd (task_provider ?t)) data (single_replica opts) (world mk))"
    by (auto simp: store_settles_def replications_after_def Let_def split: task_state.splits)
  obtain w where sp: "sp_store (snd (task_provider ?t)) data (single_replica opts) (world mk) = (r, w)"
    using r by (cases "sp_store (snd (task_provider ?t)) data (single_replica opts) (world mk)") simp
  let ?s = "case r of Inl e \<Rightarrow> Caught e | Inr stored \<Rightarrow> StoreDone"
  have ts: "task_step md opts (task_provider ?t) (task_state ?t) mk = (?s, mk\<lparr>world := w\<rparr>)"
    using st sp by (cases r) simp_all
  let ?tasks1 = "tasks[?i := ?t\<lparr>task_state := ?s\<rparr>]"
  have rest: "fold (step_task md opts) [?i] (tasks, mk) = (?tasks1, mk\<lparr>world := w\<rparr>)"
    using step_task_in[OF i ts] by simp
  have c: "committed (md_id md) (?tasks1 ! ?i) =
             Some (case r of
                     Inl e \<Rightarrow> ReplicationFailed (md_id md) name e
                   | Inr stored \<Rightarrow> Replicated (md_id md) name)"
    using i nm by (cases r) (simp_all add: committed_def)
  from committed_after[OF ra rest steps_at[OF k] i c] show ?thesis .
qed

lemma catch_runs_emitted:
  assumes "catch_runs k sched md provs opts m = Some (name, e)"
  shows "\<exists>evs. emitted (handleReplication sched md provs opts m) = emitted m @ evs \<and>
               ReplicationFailed (md_id md) name e \<in> set evs"
proof -
  let ?steps = "replication_steps sched provs opts m"
  obtain tasks mk where
    ra: "fold (step_task md opts) (take k ?steps) (replication_tasks md provs opts m, m) =
           (tasks, mk)"
    by (cases "fold (step_task md opts) (take k ?steps) (replication_tasks md provs opts m, m)")
  let ?i = "?steps ! k"
  let ?t = "tasks ! ?i"
  from assms ra have k: "k < length ?steps" and i: "?i < length tasks"
    by (auto simp: catch_runs_def replications_after_def Let_def split: if_splits)
  from assms ra k i have
    st: "task_state ?t = Caught e" and nm: "name = fst (task_provider ?t)"
    by (auto simp: catch_runs_def replications_after_def Let_def split: task_state.splits)
  have rest: "fold (step_task md opts) [] (tasks, mk) = (tasks, mk)" by simp
  have c: "committed (md_id md) (tasks ! ?i) = Some (ReplicationFailed (md_id md) name e)"
    using st nm by (simp add: committed_def)
  have steps: "?steps = take k ?steps @ [] @ drop k ?steps" by simp
  from committed_after[OF ra rest steps i c] show ?thesis .
qed

text \<open>
  \<open>replicated\<close> is emitted for a provider only after the store on that provider has
  resolved, at some step of the run.
\<close>

lemma find_metadata_not_done [simp]: "find_metadata ps \<noteq> StoreDone"
  by (simp add: find_metadata_def split: list.splits)

lemma try_providers_not_done [simp]: "try_providers md ps le \<noteq> StoreDone"
  by (simp add: try_providers_def split: list.splits)

lemma with_metadata_not_done [simp]: "with_metadata m md \<noteq> StoreDone"
  by (simp add: with_metadata_def)

lemma start_not_done [simp]: "task_state (replicateToProvider md prov m) \<noteq> StoreDone"
  by (simp add: replicateToProvider_def split: option.splits)

lemma task_step_replicated:
  assumes "task_step md opts prov s m = (s', m')"
    and "emitted m' = emitted m @ new" and "Replicated ident name \<in> set new"
  shows "s = StoreDone \<and> fst prov = name"
proof (cases s)
  case (GotValid found p rest data r)
  with assms show ?thesis by (auto split: sum.splits bool.splits)
qed (use assms in \<open>auto split: prod.splits sum.splits option.splits\<close>)

lemma task_step_StoreDone:
  assumes "task_step md opts prov s m = (StoreDone, m')"
  shows "\<exists>data stored w. s = AwaitStore data \<and>
           sp_store (snd prov) data (single_replica opts) (world m) = (Inr stored, w)"
proof (cases s)
  case (AwaitStore data)
  with assms show ?thesis by (auto split: prod.splits sum.splits)
qed (use assms in \<open>auto split: prod.splits sum.splits option.splits bool.splits\<close>)

lemma replicated_origin:
  "fold (step_task md opts) steps (tasks, m) = (tasks', m') \<Longrightarrow>
   emitted m' = emitted m @ new \<Longrightarrow> Replicated ident name \<in> set new \<Longrightarrow>
   (\<exists>i<length tasks. fst (task_provider (tasks ! i)) = name \<and>
        task_state (tasks ! i) = StoreDone) \<or>
   (\<exists>j tasks1 m1 data stored w.
        j < length steps \<and>
        fold (step_task md opts) (take j steps) (tasks, m) = (tasks1, m1) \<and>
        steps ! j < length tasks1 \<and>
        task_state (tasks1 ! (steps ! j)) = AwaitStore data \<and>
        fst (task_provider (tasks1 ! (steps ! j))) = name \<and>
        sp_store (snd (task_provider (tasks1 ! (steps ! j)))) data (single_replica opts)
          (world m1) = (Inr stored, w))"
proof (induction steps arbitrary: tasks m new)
  case Nil
  then show ?case by simp
next
  case (Cons i0 steps)
  obtain tasks1 m1 where s1: "step_task md opts i0 (tasks, m) = (tasks1, m1)"
    by (cases "step_task md opts i0 (tasks, m)")
  with Cons.prems(1) have rest: "fold (step_task md opts) steps (tasks1, m1) = (tasks', m')"
    by simp
  note a = step_task_facts[OF s1]
  have len1: "length tasks1 = length tasks" using a by (elim conjE)
  have prov1: "map task_provider tasks1 = map task_provider tasks" using a by (elim conjE)
  from a obtain new1 where e1: "emitted m1 = emitted m @ new1" by blast
  from steps_facts[OF rest] obtain new2 where e2: "emitted m' = emitted m1 @ new2" by blast
  have new: "new = new1 @ new2" using Cons.prems(2) e1 e2 by simp
  have in_range: "i0 < length tasks" if "new1 \<noteq> [] \<or> tasks1 \<noteq> tasks"
  proof (rule ccontr)
    assume "\<not> i0 < length tasks"
    with s1 have "tasks1 = tasks" "m1 = m" by (simp_all add: step_task_out)
    with e1 that show False by simp
  qed
  show ?case
  proof (cases "Replicated ident name \<in> set new1")
    case True
    then have ne: "new1 \<noteq> []" by auto
    with in_range have i0: "i0 < length tasks" by simp
    obtain s m2 where ts: "task_step md opts (task_provider (tasks ! i0)) (task_state (tasks ! i0)) m
                             = (s, m2)"
      by (cases "task_step md opts (task_provider (tasks ! i0)) (task_state (tasks ! i0)) m")
    from step_task_in[OF i0 ts] s1 have "m1 = m2" by simp
    with e1 have "emitted m2 = emitted m @ new1" by simp
    from task_step_replicated[OF ts this True]
    have "fst (task_provider (tasks ! i0)) = name \<and> task_state (tasks ! i0) = StoreDone"
      by simp
    with i0 show ?thesis by blast
  next
    case False
    with Cons.prems(3) new have in2: "Replicated ident name \<in> set new2" by simp
    from Cons.IH[OF rest e2 in2]
    consider
      (A) i where "i < length tasks1" "fst (task_provider (tasks1 ! i)) = name"
                  "task_state (tasks1 ! i) = StoreDone"
    | (B) j tasks2 m2 data stored w where
        "j < length steps"
        "fold (step_task md opts) (take j steps) (tasks1, m1) = (tasks2, m2)"
        "steps ! j < length tasks2" "task_state (tasks2 ! (steps ! j)) = AwaitStore data"
        "fst (task_provider (tasks2 ! (steps ! j))) = name"
        "sp_store (snd (task_provider (tasks2 ! (steps ! j)))) data (single_replica opts)
           (world m2) = (Inr stored, w)"
      by blast
    then show ?thesis
    proof cases
      case A
      have i: "i < length tasks" using A(1) len1 by simp
      have "task_provider (tasks1 ! i) = task_provider (tasks ! i)"
        using prov1 i len1 by (metis nth_map)
      with A(2) have nm: "fst (task_provider (tasks ! i)) = name" by simp
      show ?thesis
      proof (cases "task_state (tasks ! i) = StoreDone")
        case True
        with i nm show ?thesis by blast
      next
        case False
        have "i = i0"
        proof (rule ccontr)
          assume "i \<noteq> i0"
          then have "tasks1 ! i = tasks ! i" by (rule step_task_other[OF s1])
          with A(3) False show False by simp
        qed
        with i have i0: "i0 < length tasks" by simp
        obtain s m2 where
          ts: "task_step md opts (task_provider (tasks ! i0)) (task_state (tasks ! i0)) m = (s, m2)"
          by (cases "task_step md opts (task_provider (tasks ! i0)) (task_state (tasks ! i0)) m")
        from step_task_in[OF i0 ts] s1
        have t1: "tasks1 = tasks[i0 := (tasks ! i0)\<lparr>task_state := s\<rparr>]" by simp
        with A(3) \<open>i = i0\<close> i0 have "s = StoreDone" by simp
        with ts task_step_StoreDone[of md opts "task_provider (tasks ! i0)"
                                      "task_state (tasks ! i0)" m m2]
        obtain data stored w where
          st: "task_state (tasks ! i0) = AwaitStore data"
          and sp: "sp_store (snd (task_provider (tasks ! i0))) data (single_replica opts)
                     (world m) = (Inr stored, w)"
          by blast
        have "0 < length (i0 # steps) \<and>
              fold (step_task md opts) (take 0 (i0 # steps)) (tasks, m) = (tasks, m) \<and>
              (i0 # steps) ! 0 < length tasks \<and>
              task_state (tasks ! ((i0 # steps) ! 0)) = AwaitStore data \<and>
              fst (task_provider (tasks ! ((i0 # steps) ! 0))) = name \<and>
              sp_store (snd (task_provider (tasks ! ((i0 # steps) ! 0)))) data
                (single_replica opts) (world m) = (Inr stored, w)"
          using i0 st sp nm \<open>i = i0\<close> by simp
        then show ?thesis by blast
      qed
    next
      case B
      have "Suc j < length (i0 # steps) \<and>
            fold (step_task md opts) (take (Suc j) (i0 # steps)) (tasks, m) = (tasks2, m2) \<and>
            (i0 # steps) ! Suc j < length tasks2 \<and>
            task_state (tasks2 ! ((i0 # steps) ! Suc j)) = AwaitStore data \<and>
            fst (task_provider (tasks2 ! ((i0 # steps) ! Suc j))) = name \<and>
            sp_store (snd (task_provider (tasks2 ! ((i0 # steps) ! Suc j)))) data
              (single_replica opts) (world m2) = (Inr stored, w)"
        using B s1 by simp
      then show ?thesis by blast
    qed
  qed
qed

lemma replicated_settles:
  assumes "emitted (handleReplication sched md provs opts m) = emitted m @ evs"
    and "Replicated ident name \<in> set evs"
  shows "\<exists>k stored. store_settles k sched md provs opts m = Some (name, Inr stored)"
proof -
  let ?steps = "replication_steps sched provs opts m"
  let ?tasks = "replication_tasks md provs opts m"
  obtain tasks' m' where f: "fold (step_task md opts) ?steps (?tasks, m) = (tasks', m')"
    by (cases "fold (step_task md opts) ?steps (?tasks, m)")
  then have h: "handleReplication sched md provs opts m = m'"
    by (simp add: handleReplication_def)
  have e: "emitted m' = emitted m @ evs" using assms(1) h by simp
  have none: "\<not> (\<exists>i<length ?tasks. fst (task_provider (?tasks ! i)) = name \<and>
                   task_state (?tasks ! i) = StoreDone)"
    by (simp add: replication_tasks_def)
  from replicated_origin[OF f e assms(2)] none obtain j tasks1 m1 data stored w where
    j: "j < length ?steps"
    and fj: "fold (step_task md opts) (take j ?steps) (?tasks, m) = (tasks1, m1)"
    and i: "?steps ! j < length tasks1"
    and st: "task_state (tasks1 ! (?steps ! j)) = AwaitStore data"
    and nm: "fst (task_provider (tasks1 ! (?steps ! j))) = name"
    and sp: "sp_store (snd (task_provider (tasks1 ! (?steps ! j)))) data (single_replica opts)
               (world m1) = (Inr stored, w)"
    by blast
  have "store_settles j sched md provs opts m = Some (name, Inr stored)"
    using j fj i st nm sp by (simp add: store_settles_def replications_after_def Let_def)
  then show ?thesis by blast
qed

lemma replicationFactor_frame:
  "cfg_replicationFactor m1 = cfg_replicationFactor m \<Longrightarrow>
   replicationFactor m1 opts = replicationFactor m opts"
  by (simp add: replicationFactor_def split: option.splits)

lemma slice_to_Nil [simp]: "slice_to [] e = []"
  by (simp add: slice_to_def)

lemma no_tasks_steps: "fold (step_task md opts) steps ([], m) = ([], m)"
  by (induction steps) (simp_all add: step_task_def)

lemma handleReplication_Nil: "handleReplication sched md [] opts m = m"
  by (simp add: handleReplication_def replication_tasks_def no_tasks_steps)

lemma store_primary:
  assumes "getProvidersForStrategy m (resolveStrategy m request) = primary # others"
    and "sp_store (snd primary) (rq_data request) (rq_options request) (world m) = (Inr pm, w1)"
  shows "store sched request m =
           (Inr pm,
            emit (Stored (md_id pm) (md_size pm) (Suc (length others)) (resolveStrategy m request))
              (if replicas_not_zero (rq_options request)
               then handleReplication sched pm others (rq_options request) (primary_stored m pm w1)
               else primary_stored m pm w1))"
proof (cases "others = []")
  case True
  then show ?thesis
    using assms by (simp add: store_def Let_def primary_stored_def handleReplication_Nil)
next
  case False
  then have "0 < length others" by simp
  then show ?thesis
    using assms by (simp add: store_def Let_def primary_stored_def)
qed

text \<open>
  C8. Under the hybrid strategy with at least one provider, whenever the store on the
  primary (first) provider succeeds, \<open>store\<close> succeeds and returns the metadata of the
  primary provider, whatever the replications do and in whatever order their steps are
  scheduled. The events it emits end with \<open>stored\<close>, and before it there is exactly one
  event of replication for each secondary provider that is replicated to, in no fixed
  order. Whenever, at some step of the replications, the store on a secondary provider
  rejects with an error, \<open>replication-failed\<close> with that provider and that error is among
  the events; whenever the \<open>catch\<close> block of a replication runs, with the error of the
  store or of the retrieval before it, \<open>replication-failed\<close> with that provider and that
  error is among the events; and \<open>replicated\<close> with a provider is among the events
  exactly when the store on that provider resolves at some step.
\<close>

theorem hybrid_store_succeeds:
  assumes "resolveStrategy m request = Hybrid"
    and "providers m = primary # others"
    and "sp_store (snd primary) (rq_data request) (rq_options request) (world m) = (Inr pm, w1)"
  shows "\<exists>m' evs.
     store sched request m = (Inr pm, m') \<and>
     emitted m' =
       emitted m @ evs @ [Stored (md_id pm) (md_size pm) (length (providers m)) Hybrid] \<and>
     mset (List.map_filter replication_of evs) =
       mset (map (\<lambda>provider. (md_id pm, fst provider)) (secondaries m request others)) \<and>
     (\<forall>k name e. replicas_not_zero (rq_options request) \<and>
        store_settles k sched pm others (rq_options request) (primary_stored m pm w1) =
          Some (name, Inl e) \<longrightarrow>
        ReplicationFailed (md_id pm) name e \<in> set evs) \<and>
     (\<forall>k name e. replicas_not_zero (rq_options request) \<and>
        catch_runs k sched pm others (rq_options request) (primary_stored m pm w1) =
          Some (name, e) \<longrightarrow>
        ReplicationFailed (md_id pm) name e \<in> set evs) \<and>
     (\<forall>name. Replicated (md_id pm) name \<in> set evs \<longleftrightarrow>
        replicas_not_zero (rq_options request) \<and>
        (\<exists>k stored.
           store_settles k sched pm others (rq_options request) (primary_stored m pm w1) =
             Some (name, Inr stored)))"
proof -
  let ?opts = "rq_options request"
  let ?m1 = "primary_stored m pm w1"
  let ?ev = "Stored (md_id pm) (md_size pm) (length (providers m)) Hybrid"
  have g: "getProvidersForStrategy m (resolveStrategy m request) = primary # others"
    by (simp add: assms(1,2))
  have e1: "emitted ?m1 = emitted m" by (simp add: primary_stored_def)
  note st = store_primary[OF g assms(3), of sched, unfolded assms(1)]
  have len: "Suc (length others) = length (providers m)" by (simp add: assms(2))
  show ?thesis
  proof (cases "replicas_not_zero ?opts")
    case False
    have s: "store sched request m = (Inr pm, emit ?ev ?m1)"
      using st False len by simp
    have "store sched request m = (Inr pm, emit ?ev ?m1) \<and>
          emitted (emit ?ev ?m1) = emitted m @ [] @ [?ev] \<and>
          mset (List.map_filter replication_of []) =
            mset (map (\<lambda>provider. (md_id pm, fst provider)) (secondaries m request others)) \<and>
          (\<forall>k name e. replicas_not_zero ?opts \<and>
             store_settles k sched pm others ?opts ?m1 = Some (name, Inl e) \<longrightarrow>
             ReplicationFailed (md_id pm) name e \<in> set []) \<and>
          (\<forall>k name e. replicas_not_zero ?opts \<and>
             catch_runs k sched pm others ?opts ?m1 = Some (name, e) \<longrightarrow>
             ReplicationFailed (md_id pm) name e \<in> set []) \<and>
          (\<forall>name. Replicated (md_id pm) name \<in> set [] \<longleftrightarrow>
             replicas_not_zero ?opts \<and>
             (\<exists>k stored. store_settles k sched pm others ?opts ?m1 = Some (name, Inr stored)))"
      using s e1 False by (simp add: secondaries_def)
    then show ?thesis by (intro exI[where x = "emit ?ev ?m1"] exI[where x = "[]"])
  next
    case True
    let ?m2 = "handleReplication sched pm others ?opts ?m1"
    have s: "store sched request m = (Inr pm, emit ?ev ?m2)"
      using st True len by simp
    have rf: "replicationFactor ?m1 ?opts = replicationFactor m ?opts"
      by (rule replicationFactor_frame) (simp add: primary_stored_def)
    have sec: "secondaries m request others = slice_to others (replicationFactor ?m1 ?opts - 1)"
      using True rf by (cases "others = []") (simp_all add: secondaries_def)
    from handleReplication_events[of sched pm others ?opts ?m1] obtain evs where
      e: "emitted ?m2 = emitted ?m1 @ evs"
      and c: "mset (List.map_filter replication_of evs) =
                mset (map (\<lambda>provider. (md_id pm, fst provider))
                       (slice_to others (replicationFactor ?m1 ?opts - 1)))"
      by blast
    have d1: "ReplicationFailed (md_id pm) name e' \<in> set evs"
      if "store_settles k sched pm others ?opts ?m1 = Some (name, Inl e')" for k name e'
    proof -
      from store_settles_emitted[OF that] obtain evs' where
        "emitted ?m2 = emitted ?m1 @ evs'" and "ReplicationFailed (md_id pm) name e' \<in> set evs'"
        by auto
      with e show ?thesis by simp
    qed
    have d2: "Replicated (md_id pm) name \<in> set evs"
      if "store_settles k sched pm others ?opts ?m1 = Some (name, Inr stored)" for k name stored
    proof -
      from store_settles_emitted[OF that] obtain evs' where
        "emitted ?m2 = emitted ?m1 @ evs'" and "Replicated (md_id pm) name \<in> set evs'"
        by auto
      with e show ?thesis by simp
    qed
    have d4: "\<exists>k stored. store_settles k sched pm others ?opts ?m1 = Some (name, Inr stored)"
      if "Replicated (md_id pm) name \<in> set evs" for name
      using replicated_settles[OF e that] .
    have d3: "ReplicationFailed (md_id pm) name e' \<in> set evs"
      if "catch_runs k sched pm others ?opts ?m1 = Some (name, e')" for k name e'
    proof -
      from catch_runs_emitted[OF that] obtain evs' where
        "emitted ?m2 = emitted ?m1 @ evs'" and "ReplicationFailed (md_id pm) name e' \<in> set evs'"
        by auto
      with e show ?thesis by simp
    qed
    have "store sched request m = (Inr pm, emit ?ev ?m2) \<and>
          emitted (emit ?ev ?m2) = emitted m @ evs @ [?ev] \<and>
          mset (List.map_filter replication_of evs) =
            mset (map (\<lambda>provider. (md_id pm, fst provider)) (secondaries m request others)) \<and>
          (\<forall>k name e. replicas_not_zero ?opts \<and>
             store_settles k sched pm others ?opts ?m1 = Some (name, Inl e) \<longrightarrow>
             ReplicationFailed (md_id pm) name e \<in> set evs) \<and>
          (\<forall>k name e. replicas_not_zero ?opts \<and>
             catch_runs k sched pm others ?opts ?m1 = Some (name, e) \<longrightarrow>
             ReplicationFailed (md_id pm) name e \<in> set evs) \<and>
          (\<forall>name. Replicated (md_id pm) name \<in> set evs \<longleftrightarrow>
             replicas_not_zero ?opts \<and>
             (\<exists>k stored. store_settles k sched pm others ?opts ?m1 = Some (name, Inr stored)))"
    proof (intro conjI allI impI)
      show "store sched request m = (Inr pm, emit ?ev ?m2)" by (rule s)
      show "emitted (emit ?ev ?m2) = emitted m @ evs @ [?ev]" using e e1 by simp
      show "mset (List.map_filter replication_of evs) =
            mset (map (\<lambda>provider. (md_id pm, fst provider)) (secondaries m request others))"
        using c sec by simp
    next
      fix k name e'
      assume "replicas_not_zero ?opts \<and>
              store_settles k sched pm others ?opts ?m1 = Some (name, Inl e')"
      then show "ReplicationFailed (md_id pm) name e' \<in> set evs" using d1 by blast
    next
      fix k name e'
      assume "replicas_not_zero ?opts \<and>
              catch_runs k sched pm others ?opts ?m1 = Some (name, e')"
      then show "ReplicationFailed (md_id pm) name e' \<in> set evs" using d3 by blast
    next
      fix name
      show "Replicated (md_id pm) name \<in> set evs \<longleftrightarrow>
            replicas_not_zero ?opts \<and>
            (\<exists>k stored. store_settles k sched pm others ?opts ?m1 = Some (name, Inr stored))"
        using d2 d4 True by blast
    qed
    then show ?thesis by (intro exI[where x = "emit ?ev ?m2"] exI[where x = evs])
  qed
qed

theorem hybrid_store_succeeds_witness:
  "resolveStrategy
     (new_manager [(''local'', fixed_provider ''local'' (sample_metadata ''x'' ''local'') [1, 2, 3] True),
                   (''network'', busy_provider ''network'' (sample_metadata ''x'' ''network'')),
                   (''p2p'', fixed_provider ''p2p'' (sample_metadata ''x'' ''p2p'') [] True)])
     (sample_request (Some 3)) = Hybrid \<and>
   replicas_not_zero (rq_options (sample_request (Some 3))) \<and>
   store_settles 10 [1, 1, 1, 1, 1, 1] (sample_metadata ''x'' ''local'')
     [(''network'', busy_provider ''network'' (sample_metadata ''x'' ''network'')),
      (''p2p'', fixed_provider ''p2p'' (sample_metadata ''x'' ''p2p'') [] True)]
     (rq_options (sample_request (Some 3)))
     (primary_stored
        (new_manager [(''local'', fixed_provider ''local'' (sample_metadata ''x'' ''local'') [1, 2, 3] True),
                      (''network'', busy_provider ''network'' (sample_metadata ''x'' ''network'')),
                      (''p2p'', fixed_provider ''p2p'' (sample_metadata ''x'' ''p2p'') [] True)])
        (sample_metadata ''x'' ''local'') 1) =
     Some (''network'', Inl (Thrown ''busy'')) \<and>
   catch_runs 11 [1, 1, 1, 1, 1, 1] (sample_metadata ''x'' ''local'')
     [(''network'', busy_provider ''network'' (sample_metadata ''x'' ''network'')),
      (''p2p'', fixed_provider ''p2p'' (sample_metadata ''x'' ''p2p'') [] True)]
     (rq_options (sample_request (Some 3)))
     (primary_stored
        (new_manager [(''local'', fixed_provider ''local'' (sample_metadata ''x'' ''local'') [1, 2, 3] True),
                      (''network'', busy_provider ''network'' (sample_metadata ''x'' ''network'')),
                      (''p2p'', fixed_provider ''p2p'' (sample_metadata ''x'' ''p2p'') [] True)])
        (sample_metadata ''x'' ''local'') 1) =
     Some (''network'', Thrown ''busy'') \<and>
   store_settles 4 [1, 1, 1, 1, 1, 1] (sample_metadata ''x'' ''local'')
     [(''network'', busy_provider ''network'' (sample_metadata ''x'' ''network'')),
      (''p2p'', fixed_provider ''p2p'' (sample_metadata ''x'' ''p2p'') [] True)]
     (rq_options (sample_request (Some 3)))
     (primary_stored
        (new_manager [(''local'', fixed_provider ''local'' (sample_metadata ''x'' ''local'') [1, 2, 3] True),
                      (''network'', busy_provider ''network'' (sample_metadata ''x'' ''network'')),
                      (''p2p'', fixed_provider ''p2p'' (sample_metadata ''x'' ''p2p'') [] True)])
        (sample_metadata ''x'' ''local'') 1) =
     Some (''p2p'', Inr (sample_metadata ''x'' ''p2p'')) \<and>
   ReplicationFailed ''x'' ''network'' (Thrown ''busy'') \<in>
     set (emitted (snd (store [1, 1, 1, 1, 1, 1] (sample_request (Some 3))
       (new_manager [(''local'', fixed_provider ''local'' (sample_metadata ''x'' ''local'') [1, 2, 3] True),
                     (''network'', busy_provider ''network'' (sample_metadata ''x'' ''network'')),
                     (''p2p'', fixed_provider ''p2p'' (sample_metadata ''x'' ''p2p'') [] True)])))) \<and>
   fst (store [1, 1, 1, 1, 1, 1] (sample_request (Some 3))
      (new_manager [(''local'', fixed_provider ''local'' (sample_metadata ''x'' ''local'') [1, 2, 3] True),
                    (''network'', busy_provider ''network'' (sample_metadata ''x'' ''network'')),
                    (''p2p'', fixed_provider ''p2p'' (sample_metadata ''x'' ''p2p'') [] True)])) =
     Inr (sample_metadata ''x'' ''local'') \<and>
   emitted (snd (store [1, 1, 1, 1, 1, 1] (sample_request (Some 3))
      (new_manager [(''local'', fixed_provider ''local'' (sample_metadata ''x'' ''local'') [1, 2, 3] True),
                    (''network'', busy_provider ''network'' (sample_metadata ''x'' ''network'')),
                    (''p2p'', fixed_provider ''p2p'' (sample_metadata ''x'' ''p2p'') [] True)]))) =
     [Retrieved ''x'' 3 ''local'', Replicated ''x'' ''p2p'',
      Retrieved ''x'' 3 ''local'', ReplicationFailed ''x'' ''network'' (Thrown ''busy''),
      Stored ''x'' 3 3 Hybrid] \<and>
   emitted (snd (store [] (sample_request (Some 3))
      (new_manager [(''local'', fixed_provider ''local'' (sample_metadata ''x'' ''local'') [1, 2, 3] True),
                    (''network'', busy_provider ''network'' (sample_metadata ''x'' ''network'')),
                    (''p2p'', fixed_provider ''p2p'' (sample_metadata ''x'' ''p2p'') [] True)]))) =
     [Retrieved ''x'' 3 ''local'', Replicated ''x'' ''network'',
      Retrieved ''x'' 3 ''local'', Replicated ''x'' ''p2p'',
      Stored ''x'' 3 3 Hybrid]"
proof -
  let ?md = "sample_metadata ''x'' ''local''"
  let ?p0 = "fixed_provider ''local'' ?md [1, 2, 3] True"
  let ?p1 = "busy_provider ''network'' (sample_metadata ''x'' ''network'')"
  let ?p2 = "fixed_provider ''p2p'' (sample_metadata ''x'' ''p2p'') [] True"
  let ?others = "[(''network'', ?p1), (''p2p'', ?p2)]"
  let ?m = "new_manager ((''local'', ?p0) # ?others)"
  let ?rq = "sample_request (Some 3)"
  let ?sched = "[1, 1, 1, 1, 1, 1] :: nat list"
  have idx: "md_id ?md = ''x''" by (simp add: sample_metadata_def)
  have a: "resolveStrategy ?m ?rq = Hybrid"
    by (simp add: resolveStrategy_def sample_request_def)
  have b: "providers ?m = (''local'', ?p0) # ?others"
    by (simp add: new_manager_def)
  have c: "sp_store (snd (''local'', ?p0)) (rq_data ?rq) (rq_options ?rq) (world ?m) = (Inr ?md, 1)"
    by (simp add: fixed_provider_def new_manager_def)
  have nz: "replicas_not_zero (rq_options ?rq)"
    by (simp add: replicas_not_zero_def sample_request_def)
  have ss: "store_settles 10 ?sched ?md ?others (rq_options ?rq) (primary_stored ?m ?md 1) =
              Some (''network'', Inl (Thrown ''busy''))"
    by code_simp
  have cr: "catch_runs 11 ?sched ?md ?others (rq_options ?rq) (primary_stored ?m ?md 1) =
              Some (''network'', Thrown ''busy'')"
    by code_simp
  have sp: "store_settles 4 ?sched ?md ?others (rq_options ?rq) (primary_stored ?m ?md 1) =
              Some (''p2p'', Inr (sample_metadata ''x'' ''p2p''))"
    by code_simp
  from hybrid_store_succeeds[OF a b c, of ?sched] obtain m' evs where
    st: "store ?sched ?rq ?m = (Inr ?md, m')"
    and em: "emitted m' = emitted ?m @ evs @
               [Stored (md_id ?md) (md_size ?md) (length (providers ?m)) Hybrid]"
    and fails: "\<forall>k name e. replicas_not_zero (rq_options ?rq) \<and>
        store_settles k ?sched ?md ?others (rq_options ?rq) (primary_stored ?m ?md 1) =
          Some (name, Inl e) \<longrightarrow>
        ReplicationFailed (md_id ?md) name e \<in> set evs"
    by blast
  from fails nz ss have "ReplicationFailed (md_id ?md) ''network'' (Thrown ''busy'') \<in> set evs"
    by blast
  then have inn: "ReplicationFailed ''x'' ''network'' (Thrown ''busy'') \<in>
                    set (emitted (snd (store ?sched ?rq ?m)))"
    using st em idx by simp
  have r: "fst (store ?sched ?rq ?m) = Inr ?md" using st by simp
  have e: "emitted (snd (store ?sched ?rq ?m)) =
     [Retrieved ''x'' 3 ''local'', Replicated ''x'' ''p2p'',
      Retrieved ''x'' 3 ''local'', ReplicationFailed ''x'' ''network'' (Thrown ''busy''),
      Stored ''x'' 3 3 Hybrid]"
    by code_simp
  have e0: "emitted (snd (store [] ?rq ?m)) =
     [Retrieved ''x'' 3 ''local'', Replicated ''x'' ''network'',
      Retrieved ''x'' 3 ''local'', Replicated ''x'' ''p2p'',
      Stored ''x'' 3 3 Hybrid]"
    by code_simp
  from a nz ss cr sp inn r e e0 show ?thesis by (intro conjI)
qed

text \<open>
  C10. When \<open>store\<close> is called with \<open>options.replicas\<close> equal to 0, only the store of the
  primary provider acts on the world, no event of replication is emitted, and the result
  is that of the primary provider: its metadata, cached and announced by one \<open>stored\<close>
  event, or its error wrapped as \<open>STORE_ERROR\<close>.
\<close>

theorem replicas_zero_no_replication:
  assumes "rq_options request = Some opts" and "so_replicas opts = Some 0"
    and "getProvidersForStrategy m (resolveStrategy m request) = primary # others"
  shows "world (snd (store sched request m)) =
           snd (sp_store (snd primary) (rq_data request) (rq_options request) (world m)) \<and>
         filter is_replication (emitted (snd (store sched request m))) =
           filter is_replication (emitted m) \<and>
         store sched request m =
           (case sp_store (snd primary) (rq_data request) (rq_options request) (world m) of
              (Inl e, w1) \<Rightarrow>
                (Inl (StorageFailure ''Failed to store data'' ''STORE_ERROR'' (Some e)),
                 m\<lparr> world := w1 \<rparr>)
            | (Inr pm, w1) \<Rightarrow>
                (Inr pm,
                 emit (Stored (md_id pm) (md_size pm) (Suc (length others))
                         (resolveStrategy m request))
                   (m\<lparr> world := w1, metadataCache := (metadataCache m)(md_id pm \<mapsto> pm) \<rparr>)))"
proof -
  have z: "\<not> replicas_not_zero (rq_options request)"
    by (simp add: replicas_not_zero_def assms(1,2))
  obtain r w1 where s: "sp_store (snd primary) (rq_data request) (rq_options request) (world m) = (r, w1)"
    by (cases "sp_store (snd primary) (rq_data request) (rq_options request) (world m)")
  show ?thesis
  proof (cases r)
    case (Inl e)
    with s z show ?thesis by (simp add: store_def Let_def assms(3))
  next
    case (Inr pm)
    with s z show ?thesis by (simp add: store_def Let_def assms(3))
  qed
qed

theorem replicas_zero_no_replication_witness:
  "rq_options (sample_request (Some 0)) = Some (no_options\<lparr> so_replicas := Some 0 \<rparr>) \<and>
   so_replicas (no_options\<lparr> so_replicas := Some 0 \<rparr>) = Some 0 \<and>
   world (snd (store [0, 0] (sample_request (Some 0))
      (new_manager [(''local'', fixed_provider ''local'' (sample_metadata ''x'' ''local'') [1, 2, 3] True),
                    (''network'', broken_provider ''network'')]))) = 1 \<and>
   emitted (snd (store [0, 0] (sample_request (Some 0))
      (new_manager [(''local'', fixed_provider ''local'' (sample_metadata ''x'' ''local'') [1, 2, 3] True),
                    (''network'', broken_provider ''network'')]))) = [Stored ''x'' 3 2 Hybrid]"
proof -
  let ?md = "sample_metadata ''x'' ''local''"
  let ?p1 = "fixed_provider ''local'' ?md [1, 2, 3] True"
  let ?m = "new_manager [(''local'', ?p1), (''network'', broken_provider ''network'')]"
  let ?rq = "sample_request (Some 0)"
  have a: "rq_options ?rq = Some (no_options\<lparr> so_replicas := Some 0 \<rparr>)"
    by (simp add: sample_request_def)
  have b: "so_replicas (no_options\<lparr> so_replicas := Some 0 \<rparr>) = Some 0" by simp
  have c: "getProvidersForStrategy ?m (resolveStrategy ?m ?rq) =
           (''local'', ?p1) # [(''network'', broken_provider ''network'')]"
    by (simp add: resolveStrategy_def sample_request_def new_manager_def)
  have s: "sp_store ?p1 (rq_data ?rq) (rq_options ?rq) (world ?m) = (Inr ?md, Suc 0)"
    by (simp add: fixed_provider_def new_manager_def)
  note t = replicas_zero_no_replication[OF a b c, of "[0, 0]"]
  have w: "world (snd (store [0, 0] ?rq ?m)) = 1"
    using t[THEN conjunct1] by (simp only: snd_conv s One_nat_def)
  have e: "emitted (snd (store [0, 0] ?rq ?m)) = [Stored ''x'' 3 2 Hybrid]"
    by code_simp
  from a b w e show ?thesis by (intro conjI)
qed

text \<open>
  The branch of \<open>retrieve\<close> for a preferred provider is outside the statements on
  \<open>retrieve\<close> above. It returns what that provider delivers as it is, without the
  validation and without the event of the loop beside it.
\<close>

lemma retrieve_preferred_evaluation:
  "fst (retrieve ''x'' (Some ''local'')
     (new_manager [(''local'', fixed_provider ''local'' (sample_metadata ''x'' ''local'') [9] False)])) =
     Inr [9] \<and>
   emitted (snd (retrieve ''x'' (Some ''local'')
     (new_manager [(''local'', fixed_provider ''local'' (sample_metadata ''x'' ''local'') [9] False)]))) = []"
proof -
  have d: "fst (retrieve ''x'' (Some ''local'')
     (new_manager [(''local'', fixed_provider ''local'' (sample_metadata ''x'' ''local'') [9] False)])) =
     Inr [9]"
    by code_simp
  have e: "emitted (snd (retrieve ''x'' (Some ''local'')
     (new_manager [(''local'', fixed_provider ''local'' (sample_metadata ''x'' ''local'') [9] False)]))) = []"
    by code_simp
  from d e show ?thesis by (intro conjI)
qed

subsection \<open>A replication that runs undisturbed\<close>

text \<open>
  The steps of a task have the calls of \<open>retrieve\<close> in them. When no step of another
  task comes in between, they amount to \<open>retrieve\<close> as it is defined above, followed by
  the store on the provider.
\<close>

lemma alone_Settled:
  "fold (step_task md opts) (replicate k 0) ([\<lparr>task_provider = prov, task_state = Settled\<rparr>], m) =
     ([\<lparr>task_provider = prov, task_state = Settled\<rparr>], m)"
  by (induction k) (simp_all add: step_task_def del: fold_replicate)

lemma alone_Caught:
  "snd (fold (step_task md opts) (replicate (Suc k) 0)
          ([\<lparr>task_provider = prov, task_state = Caught e\<rparr>], m)) =
     emit (ReplicationFailed (md_id md) (fst prov) e) m"
  by (simp add: step_task_def alone_Settled del: fold_replicate)

lemma alone_Store:
  "snd (fold (step_task md opts) (replicate (Suc (Suc k)) 0)
          ([\<lparr>task_provider = prov, task_state = AwaitStore data\<rparr>], m)) =
     after_retrieve md opts prov (Inr data, m)"
proof -
  obtain r w where s: "sp_store (snd prov) data (single_replica opts) (world m) = (r, w)"
    by (cases "sp_store (snd prov) data (single_replica opts) (world m)")
  show ?thesis
  proof (cases r)
    case (Inl e)
    with s show ?thesis by (simp add: step_task_def alone_Settled after_retrieve_def del: fold_replicate)
  next
    case (Inr stored)
    with s show ?thesis by (simp add: step_task_def alone_Settled after_retrieve_def del: fold_replicate)
  qed
qed

lemma alone_loop:
  "4 * length ps + 2 \<le> k \<Longrightarrow>
   snd (fold (step_task md opts) (replicate k 0)
          ([\<lparr>task_provider = prov, task_state = try_providers found ps le\<rparr>], m)) =
     after_retrieve md opts prov (retrieve_loop ps (md_id md) found le m)"
proof (induction ps arbitrary: k le m)
  case Nil
  then obtain k1 where k: "k = Suc k1" by (cases k) simp_all
  show ?case unfolding k
    by (simp add: try_providers_def alone_Caught after_retrieve_def del: replicate.simps fold_replicate)
next
  case (Cons p rest)
  define k4 where "k4 = k - 4"
  from Cons.prems have k: "k = Suc (Suc (Suc (Suc k4)))" and b4: "4 * length rest + 2 \<le> k4"
    unfolding k4_def by simp_all
  from b4 obtain k2 where k4: "k4 = Suc (Suc k2)" by (cases k4; cases "k4 - 1") simp_all
  have b2: "4 * length rest + 2 \<le> Suc (Suc k4)" using b4 by simp
  obtain r w where a: "sp_retrieve (snd p) (md_id md) (world m) = (r, w)"
    by (cases "sp_retrieve (snd p) (md_id md) (world m)")
  show ?case
  proof (cases r)
    case (Inl e)
    have "snd (fold (step_task md opts) (replicate k 0)
            ([\<lparr>task_provider = prov, task_state = try_providers found (p # rest) le\<rparr>], m)) =
          snd (fold (step_task md opts) (replicate (Suc (Suc k4)) 0)
            ([\<lparr>task_provider = prov, task_state = try_providers found rest (Some e)\<rparr>],
             m\<lparr>world := w\<rparr>))"
      unfolding k using a Inl
      by (simp add: try_providers_def[of found "p # rest"] step_task_def del: fold_replicate)
    also have "\<dots> = after_retrieve md opts prov
                       (retrieve_loop rest (md_id md) found (Some e) (m\<lparr>world := w\<rparr>))"
      by (rule Cons.IH[OF b2])
    finally show ?thesis using a Inl by simp
  next
    case (Inr data)
    obtain v w2 where b: "sp_validateChecksum (snd p) (md_id md) w = (v, w2)"
      by (cases "sp_validateChecksum (snd p) (md_id md) w")
    have fail: "snd (fold (step_task md opts) (replicate k 0)
            ([\<lparr>task_provider = prov, task_state = try_providers found (p # rest) le\<rparr>], m)) =
          after_retrieve md opts prov
            (retrieve_loop rest (md_id md) found (Some e) (m\<lparr>world := w2\<rparr>))"
      if "task_step md opts prov (GotValid found p rest data v) (m\<lparr>world := w2\<rparr>) =
            (try_providers found rest (Some e), m\<lparr>world := w2\<rparr>)" for e
    proof -
      have "snd (fold (step_task md opts) (replicate k 0)
              ([\<lparr>task_provider = prov, task_state = try_providers found (p # rest) le\<rparr>], m)) =
            snd (fold (step_task md opts) (replicate k4 0)
              ([\<lparr>task_provider = prov, task_state = try_providers found rest (Some e)\<rparr>],
               m\<lparr>world := w2\<rparr>))"
        unfolding k using a Inr b that
        by (simp add: try_providers_def[of found "p # rest"] step_task_def del: task_step.simps(6) fold_replicate)
      also have "\<dots> = after_retrieve md opts prov
                         (retrieve_loop rest (md_id md) found (Some e) (m\<lparr>world := w2\<rparr>))"
        by (rule Cons.IH[OF b4])
      finally show ?thesis .
    qed
    show ?thesis
    proof (cases v)
      case (Inl e)
      then have "task_step md opts prov (GotValid found p rest data v) (m\<lparr>world := w2\<rparr>) =
                   (try_providers found rest (Some e), m\<lparr>world := w2\<rparr>)" by simp
      from fail[OF this] show ?thesis using a Inr b Inl by simp
    next
      case vr: (Inr ok)
      show ?thesis
      proof (cases ok)
        case False
        with vr have "task_step md opts prov (GotValid found p rest data v) (m\<lparr>world := w2\<rparr>) =
                   (try_providers found rest (Some (Thrown ''Checksum validation failed'')),
                    m\<lparr>world := w2\<rparr>)" by simp
        from fail[OF this] show ?thesis using a Inr b vr False by simp
      next
        case True
        have "snd (fold (step_task md opts) (replicate k 0)
                ([\<lparr>task_provider = prov, task_state = try_providers found (p # rest) le\<rparr>], m)) =
              snd (fold (step_task md opts) (replicate (Suc (Suc k2)) 0)
                ([\<lparr>task_provider = prov, task_state = AwaitStore data\<rparr>],
                 emit (Retrieved (md_id md) (md_size found) (fst p)) (m\<lparr>world := w2\<rparr>)))"
          unfolding k k4 using a Inr b vr True
          by (simp add: try_providers_def[of found "p # rest"] step_task_def del: fold_replicate)
        also have "\<dots> = after_retrieve md opts prov
                           (Inr data, emit (Retrieved (md_id md) (md_size found) (fst p))
                                        (m\<lparr>world := w2\<rparr>))"
          by (rule alone_Store)
        finally show ?thesis using a Inr b vr True by simp
      qed
    qed
  qed
qed

lemma alone_with_metadata:
  assumes "4 * length (providers m) + 2 \<le> k" and "providers m0 = providers m"
  shows "snd (fold (step_task md opts) (replicate k 0)
            ([\<lparr>task_provider = prov, task_state = with_metadata m0 found\<rparr>], m)) =
         after_retrieve md opts prov
           (if getProvidersForMetadata m found = [] then
              (Inl (StorageFailure ''No providers available for retrieval'' ''NO_PROVIDERS'' None), m)
            else retrieve_loop (getProvidersForMetadata m found) (md_id md) found None m)"
proof -
  have g: "getProvidersForMetadata m0 found = getProvidersForMetadata m found"
    using assms(2) by (simp add: getProvidersForMetadata_def)
  show ?thesis
  proof (cases "getProvidersForMetadata m found = []")
    case True
    from assms(1) obtain k1 where k: "k = Suc k1" by (cases k) simp_all
    show ?thesis unfolding k using True g
      by (simp add: with_metadata_def alone_Caught after_retrieve_def del: replicate.simps fold_replicate)
  next
    case False
    have "length (getProvidersForMetadata m found) \<le> length (providers m)"
      by (simp add: getProvidersForMetadata_def)
    with assms(1) have "4 * length (getProvidersForMetadata m found) + 2 \<le> k" by simp
    from alone_loop[OF this, of md opts prov found None m] show ?thesis
      using False g by (simp add: with_metadata_def)
  qed
qed

lemma alone_find_metadata:
  "2 * length ps + 4 * length (providers m) + 3 \<le> k \<Longrightarrow>
   snd (fold (step_task md opts) (replicate k 0)
          ([\<lparr>task_provider = prov, task_state = find_metadata ps\<rparr>], m)) =
     after_retrieve md opts prov
       (case findMetadata ps (md_id md) (world m) of
          (None, w) \<Rightarrow> (Inl (StorageFailure ''Data not found'' ''NOT_FOUND'' None), m\<lparr>world := w\<rparr>)
        | (Some found, w) \<Rightarrow>
            (if getProvidersForMetadata m found = [] then
               (Inl (StorageFailure ''No providers available for retrieval'' ''NO_PROVIDERS''
                       None),
                m\<lparr>world := w, metadataCache := (metadataCache m)(md_id md \<mapsto> found)\<rparr>)
             else retrieve_loop (getProvidersForMetadata m found) (md_id md) found None
                    (m\<lparr>world := w, metadataCache := (metadataCache m)(md_id md \<mapsto> found)\<rparr>)))"
proof (induction ps arbitrary: k m)
  case Nil
  then obtain k1 where k: "k = Suc k1" by (cases k) simp_all
  show ?case unfolding k
    by (simp add: find_metadata_def alone_Caught after_retrieve_def del: replicate.simps fold_replicate)
next
  case (Cons p rest)
  define k2 where "k2 = k - 2"
  from Cons.prems have k: "k = Suc (Suc k2)"
    and b2: "2 * length rest + 4 * length (providers m) + 3 \<le> k2"
    unfolding k2_def by simp_all
  obtain r w where a: "sp_getMetadata (snd p) (md_id md) (world m) = (r, w)"
    by (cases "sp_getMetadata (snd p) (md_id md) (world m)")
  have skip: "snd (fold (step_task md opts) (replicate k 0)
            ([\<lparr>task_provider = prov, task_state = find_metadata (p # rest)\<rparr>], m)) =
          after_retrieve md opts prov
            (case findMetadata (p # rest) (md_id md) (world m) of
               (None, w) \<Rightarrow>
                 (Inl (StorageFailure ''Data not found'' ''NOT_FOUND'' None), m\<lparr>world := w\<rparr>)
             | (Some found, w) \<Rightarrow>
                 (if getProvidersForMetadata m found = [] then
                    (Inl (StorageFailure ''No providers available for retrieval'' ''NO_PROVIDERS''
                            None),
                     m\<lparr>world := w, metadataCache := (metadataCache m)(md_id md \<mapsto> found)\<rparr>)
                  else retrieve_loop (getProvidersForMetadata m found) (md_id md) found None
                         (m\<lparr>world := w, metadataCache := (metadataCache m)(md_id md \<mapsto> found)\<rparr>)))"
    if nf: "r = Inl e \<or> r = Inr None" for e
  proof -
    have "snd (fold (step_task md opts) (replicate k 0)
              ([\<lparr>task_provider = prov, task_state = find_metadata (p # rest)\<rparr>], m)) =
          snd (fold (step_task md opts) (replicate k2 0)
              ([\<lparr>task_provider = prov, task_state = find_metadata rest\<rparr>], m\<lparr>world := w\<rparr>))"
      unfolding k using a nf
      by (auto simp: find_metadata_def[of "p # rest"] step_task_def simp del: fold_replicate)
    also have "\<dots> = after_retrieve md opts prov
       (case findMetadata rest (md_id md) (world (m\<lparr>world := w\<rparr>)) of
          (None, w') \<Rightarrow>
            (Inl (StorageFailure ''Data not found'' ''NOT_FOUND'' None), m\<lparr>world := w, world := w'\<rparr>)
        | (Some found, w') \<Rightarrow>
            (if getProvidersForMetadata (m\<lparr>world := w\<rparr>) found = [] then
               (Inl (StorageFailure ''No providers available for retrieval'' ''NO_PROVIDERS''
                       None),
                m\<lparr>world := w, world := w',
                  metadataCache := (metadataCache (m\<lparr>world := w\<rparr>))(md_id md \<mapsto> found)\<rparr>)
             else retrieve_loop (getProvidersForMetadata (m\<lparr>world := w\<rparr>) found) (md_id md) found
                    None
                    (m\<lparr>world := w, world := w',
                      metadataCache := (metadataCache (m\<lparr>world := w\<rparr>))(md_id md \<mapsto> found)\<rparr>)))"
      using b2 by (intro Cons.IH) simp
    finally show ?thesis using a nf
      by (auto simp: getProvidersForMetadata_def split: prod.splits option.splits)
  qed
  show ?case
  proof (cases r)
    case (Inl e)
    then show ?thesis using skip[of e] by simp
  next
    case (Inr res)
    show ?thesis
    proof (cases res)
      case None
      with Inr show ?thesis using skip[of undefined] by simp
    next
      case (Some found)
      let ?m1 = "m\<lparr>world := w, metadataCache := (metadataCache m)(md_id md \<mapsto> found)\<rparr>"
      have kb: "4 * length (providers ?m1) + 2 \<le> k2" using b2 by simp
      have pm: "providers (m\<lparr>world := w\<rparr>) = providers ?m1" by simp
      have "snd (fold (step_task md opts) (replicate k 0)
                ([\<lparr>task_provider = prov, task_state = find_metadata (p # rest)\<rparr>], m)) =
            snd (fold (step_task md opts) (replicate k2 0)
                ([\<lparr>task_provider = prov, task_state = with_metadata (m\<lparr>world := w\<rparr>) found\<rparr>],
                 ?m1))"
        unfolding k using a Inr Some
        by (simp add: find_metadata_def[of "p # rest"] step_task_def del: fold_replicate)
      also have "\<dots> = after_retrieve md opts prov
           (if getProvidersForMetadata ?m1 found = [] then
              (Inl (StorageFailure ''No providers available for retrieval'' ''NO_PROVIDERS'' None),
               ?m1)
            else retrieve_loop (getProvidersForMetadata ?m1 found) (md_id md) found None ?m1)"
        by (rule alone_with_metadata[OF kb pm])
      finally show ?thesis using a Inr Some
        by (simp add: getProvidersForMetadata_def)
    qed
  qed
qed

text \<open>
  A task that takes all its steps in a row, from the call of \<open>replicateToProvider\<close>
  on, leaves the manager as \<open>retrieve\<close> and the rest of the body do.
\<close>

lemma replication_undisturbed:
  assumes "6 * length (providers m) + 4 \<le> k"
  shows "snd (fold (step_task md opts) (replicate k 0) ([replicateToProvider md prov m], m)) =
           after_retrieve md opts prov (retrieve (md_id md) None m)"
proof (cases "metadataCache m (md_id md)")
  case (Some cached)
  have kb: "4 * length (providers m) + 2 \<le> k" using assms by simp
  from alone_with_metadata[OF kb refl, of md opts prov cached] Some show ?thesis
    by (simp add: replicateToProvider_def retrieve_def lookupMetadata_def)
next
  case None
  have kb: "2 * length (providers m) + 4 * length (providers m) + 3 \<le> k" using assms by simp
  obtain r w where f: "findMetadata (providers m) (md_id md) (world m) = (r, w)"
    by (cases "findMetadata (providers m) (md_id md) (world m)")
  have g: "getProvidersForMetadata
             (m\<lparr>world := w, metadataCache := (metadataCache m)(md_id md \<mapsto> found)\<rparr>) found =
           getProvidersForMetadata m found" for found
    by (simp add: getProvidersForMetadata_def)
  from alone_find_metadata[OF kb, of md opts prov] None f g show ?thesis
    by (cases r) (simp_all add: replicateToProvider_def retrieve_def lookupMetadata_def)
qed

end
